theory Spec2Isabelle
  imports Complex_Main "HOL-Library.Char_ord" "HOL-Library.List_Lexorder" "HOL-Library.Multiset"
begin

section \<open>Numbers\<close>

text \<open>
  The program computes in IEEE double precision. This development reads every
  \<^verbatim>\<open>number\<close> that holds a coordinate, an angle, a colour channel or a size as a
  real number, and every \<^verbatim>\<open>number\<close> that holds a count or a loop index as a
  natural number or an integer. Where the source divides by a value that can be zero,
  the model writes the case out. Overflow to infinity and NaN are outside the model, and
  so is the rounding of double precision, with two exceptions that statements below
  depend on: the conversion of the mesh buffers to single precision is modelled
  (\<open>float32\<close>), and hull mode is given a second time with the number it compares
  with its threshold as a parameter (\<open>computeConvexHullWith\<close>).
\<close>

section \<open>Spherical layout (utils/math)\<close>

record SphericalPoint =
  phi :: real
  theta :: real

text \<open>
  \<^verbatim>\<open>distributePointsOnSphere(count)\<close>: a chain of tests on \<^verbatim>\<open>count\<close>, the
  last branch being the loop \<^verbatim>\<open>for (let i = 0; i < count; i++)\<close> that pushes one
  point per index. A count of zero reaches that last branch and the loop does not run.
  The parameter \<^verbatim>\<open>count\<close> is written \<open>n\<close>.
\<close>

definition distributePointsOnSphere :: "nat \<Rightarrow> SphericalPoint list" where
  "distributePointsOnSphere n =
    (if n = 1 then
       [\<lparr>phi = 0, theta = 0\<rparr>]
     else if n = 2 then
       [\<lparr>phi = 0, theta = 0\<rparr>,
        \<lparr>phi = pi, theta = 0\<rparr>]
     else if n = 3 then
       [\<lparr>phi = pi / 2, theta = 0\<rparr>,
        \<lparr>phi = pi / 2, theta = (2 * pi) / 3\<rparr>,
        \<lparr>phi = pi / 2, theta = (4 * pi) / 3\<rparr>]
     else if n = 4 then
       (let tetrahedralAngle = arccos (- 1 / 3) in
        [\<lparr>phi = 0, theta = 0\<rparr>,
         \<lparr>phi = tetrahedralAngle, theta = 0\<rparr>,
         \<lparr>phi = tetrahedralAngle, theta = (2 * pi) / 3\<rparr>,
         \<lparr>phi = tetrahedralAngle, theta = (4 * pi) / 3\<rparr>])
     else if n = 5 then
       [\<lparr>phi = 0, theta = 0\<rparr>,
        \<lparr>phi = pi, theta = 0\<rparr>,
        \<lparr>phi = pi / 2, theta = 0\<rparr>,
        \<lparr>phi = pi / 2, theta = (2 * pi) / 3\<rparr>,
        \<lparr>phi = pi / 2, theta = (4 * pi) / 3\<rparr>]
     else if n = 6 then
       [\<lparr>phi = 0, theta = 0\<rparr>,
        \<lparr>phi = pi, theta = 0\<rparr>,
        \<lparr>phi = pi / 2, theta = 0\<rparr>,
        \<lparr>phi = pi / 2, theta = pi / 2\<rparr>,
        \<lparr>phi = pi / 2, theta = pi\<rparr>,
        \<lparr>phi = pi / 2, theta = (3 * pi) / 2\<rparr>]
     else
       (let goldenRatio = (1 + sqrt 5) / 2 in
        map (\<lambda>i. \<lparr>phi = arccos (1 - (2 * (real i + 0.5)) / real n),
                  theta = (2 * pi * real i) / goldenRatio\<rparr>)
            [0..<n]))"

section \<open>Label scaling (SkillNode)\<close>

definition HTML_DISTANCE_FACTOR :: real where
  "HTML_DISTANCE_FACTOR = 15"

text \<open>
  The body of the \<^verbatim>\<open>useFrame\<close> callback of \<^verbatim>\<open>SkillNode\<close>, as a function of
  the two settings and of the camera distance; the result is the value handed to
  \<^verbatim>\<open>setCurrentFontSize\<close>. At distance zero the source's \<^verbatim>\<open>scaleFactor\<close> is
  infinite: the product with the label size is then infinite for a positive label size
  and NaN for a zero one (neither is below the minimum, so the label size is returned),
  and minus infinity for a negative one (the boosted branch, whose quotient is zero).
\<close>

definition labelFontSize :: "real \<Rightarrow> real \<Rightarrow> real \<Rightarrow> real" where
  "labelFontSize labelSize minLabelSize distance =
    (if distance = 0 then
       (if labelSize < 0 then min 1500 0 else labelSize)
     else
       (let scaleFactor = HTML_DISTANCE_FACTOR / distance;
            visualSizeOnScreen = labelSize * scaleFactor
        in if visualSizeOnScreen < minLabelSize
           then min 1500 (minLabelSize / scaleFactor)
           else labelSize))"

section \<open>Vectors (the operations of three.js that the program calls)\<close>

text \<open>
  \<^verbatim>\<open>THREE.Vector3\<close> belongs to a library outside the repository. The operations
  below are the ones the program calls, with the library's arithmetic read over the reals.
  \<^verbatim>\<open>normalize()\<close> is \<^verbatim>\<open>divideScalar(length() || 1)\<close> in the library: the zero
  vector is divided by one and stays the zero vector.
\<close>

datatype Vector3 = Vector3 (vx: real) (vy: real) (vz: real)

definition subVectors :: "Vector3 \<Rightarrow> Vector3 \<Rightarrow> Vector3" where
  "subVectors a b = Vector3 (vx a - vx b) (vy a - vy b) (vz a - vz b)"

definition addVectors :: "Vector3 \<Rightarrow> Vector3 \<Rightarrow> Vector3" where
  "addVectors a b = Vector3 (vx a + vx b) (vy a + vy b) (vz a + vz b)"

definition multiplyScalar :: "Vector3 \<Rightarrow> real \<Rightarrow> Vector3" where
  "multiplyScalar v s = Vector3 (vx v * s) (vy v * s) (vz v * s)"

definition addScaledVector :: "Vector3 \<Rightarrow> Vector3 \<Rightarrow> real \<Rightarrow> Vector3" where
  "addScaledVector p v s = Vector3 (vx p + vx v * s) (vy p + vy v * s) (vz p + vz v * s)"

definition crossVectors :: "Vector3 \<Rightarrow> Vector3 \<Rightarrow> Vector3" where
  "crossVectors a b =
     Vector3 (vy a * vz b - vz a * vy b)
             (vz a * vx b - vx a * vz b)
             (vx a * vy b - vy a * vx b)"

definition dot :: "Vector3 \<Rightarrow> Vector3 \<Rightarrow> real" where
  "dot a b = vx a * vx b + vy a * vy b + vz a * vz b"

definition vlength :: "Vector3 \<Rightarrow> real" where
  "vlength v = sqrt (vx v * vx v + vy v * vy v + vz v * vz v)"

definition normalizeV :: "Vector3 \<Rightarrow> Vector3" where
  "normalizeV v = multiplyScalar v (1 / (if vlength v = 0 then 1 else vlength v))"

definition distanceTo :: "Vector3 \<Rightarrow> Vector3 \<Rightarrow> real" where
  "distanceTo a b =
     (let dx = vx a - vx b; dy = vy a - vy b; dz = vz a - vz b
      in sqrt (dx * dx + dy * dy + dz * dz))"

section \<open>Nodes, edges, faces\<close>

datatype ConnectionStyle = StyleNone | Straight | CurveIn | CurveOut

datatype ConnectionMode = Fixed | Auto

datatype FillColorMode = Solid | Gradient | Core

text \<open>
  \<^verbatim>\<open>NodeData\<close> without its \<^verbatim>\<open>capability\<close> field, which the graph and mesh code
  never reads. Identifiers and colours are strings, as in the source.
\<close>

record NodeData =
  node_id :: string
  pos :: Vector3
  color :: string
  surfacePos :: Vector3

record EdgeData =
  e_start :: Vector3
  e_end :: Vector3
  e_mid :: Vector3
  e_color :: string
  nodeAId :: string
  nodeBId :: string

record FaceData =
  nodeIds :: "string \<times> string \<times> string"
  positions :: "Vector3 \<times> Vector3 \<times> Vector3"
  controlPoints :: "Vector3 \<times> Vector3 \<times> Vector3"
  colors :: "string \<times> string \<times> string"

record GraphData =
  edges :: "EdgeData list"
  faces :: "FaceData list"

text \<open>The fields of \<^verbatim>\<open>VisualSettings\<close> that the graph, mesh and label code reads.\<close>

record VisualSettings =
  connectionStyle :: ConnectionStyle
  connectionMode :: ConnectionMode
  connectionNeighbors :: int
  fillMesh :: bool
  fillColorMode :: FillColorMode
  fillSolidColor :: string
  fillOpacity :: real
  coreColor :: string
  labelSize :: real
  minLabelSize :: real

definition getEdgeControlPoint :: "Vector3 \<Rightarrow> Vector3 \<Rightarrow> ConnectionStyle \<Rightarrow> Vector3" where
  "getEdgeControlPoint p1 p2 style =
     (let mid = multiplyScalar (addVectors p1 p2) 0.5
      in if style = CurveIn then multiplyScalar mid 0.7
         else if style = CurveOut then multiplyScalar mid 1.3
         else mid)"

text \<open>
  The pattern \<^verbatim>\<open>if (!keys.has(key)) { keys.add(key); list.push(item) }\<close>, which
  the source writes out three times (hull edges, neighbour edges, neighbour faces).
\<close>

definition pushUnique :: "string \<Rightarrow> 'a \<Rightarrow> string set \<times> 'a list \<Rightarrow> string set \<times> 'a list" where
  "pushUnique key item st =
     (if key \<notin> fst st then (insert key (fst st), snd st @ [item]) else st)"

section \<open>Exact hull mode (computeConvexHull)\<close>

text \<open>
  The innermost loop over \<^verbatim>\<open>m\<close>, as a recursion over the indices still to visit;
  the result is the final value of \<^verbatim>\<open>isFace\<close>, \<open>False\<close> being the \<^verbatim>\<open>break\<close>.
\<close>

fun sideScan :: "NodeData list \<Rightarrow> Vector3 \<Rightarrow> Vector3 \<Rightarrow> nat \<Rightarrow> nat \<Rightarrow> nat \<Rightarrow> real \<Rightarrow> nat list \<Rightarrow> bool" where
  "sideScan nodes normal p1 i j k side [] = True"
| "sideScan nodes normal p1 i j k side (m # ms) =
     (if m = i \<or> m = j \<or> m = k then sideScan nodes normal p1 i j k side ms
      else
        (let vm = subVectors (pos (nodes ! m)) p1;
             d = dot normal vm
         in if \<bar>d\<bar> > 1 / 10000 then
              (let currentSide = sgn d
               in if side = 0 then sideScan nodes normal p1 i j k currentSide ms
                  else if side \<noteq> currentSide then False
                  else sideScan nodes normal p1 i j k side ms)
            else sideScan nodes normal p1 i j k side ms))"

definition hullNormal :: "NodeData list \<Rightarrow> nat \<Rightarrow> nat \<Rightarrow> nat \<Rightarrow> Vector3" where
  "hullNormal nodes i j k =
     (let p1 = pos (nodes ! i); p2 = pos (nodes ! j); p3 = pos (nodes ! k);
          v1 = subVectors p2 p1;
          v2 = subVectors p3 p1
      in normalizeV (crossVectors v1 v2))"

definition isFace :: "NodeData list \<Rightarrow> nat \<Rightarrow> nat \<Rightarrow> nat \<Rightarrow> bool" where
  "isFace nodes i j k =
     sideScan nodes (hullNormal nodes i j k) (pos (nodes ! i)) i j k 0 [0..<length nodes]"

definition hullFace :: "NodeData list \<Rightarrow> ConnectionStyle \<Rightarrow> nat \<Rightarrow> nat \<Rightarrow> nat \<Rightarrow> FaceData" where
  "hullFace nodes style i j k =
     (let p1 = pos (nodes ! i); p2 = pos (nodes ! j); p3 = pos (nodes ! k)
      in \<lparr>nodeIds = (node_id (nodes ! i), node_id (nodes ! j), node_id (nodes ! k)),
          positions = (p1, p2, p3),
          controlPoints =
            (getEdgeControlPoint p1 p2 style,
             getEdgeControlPoint p2 p3 style,
             getEdgeControlPoint p3 p1 style),
          colors = (color (nodes ! i), color (nodes ! j), color (nodes ! k))\<rparr>)"

text \<open>
  The callback of \<^verbatim>\<open>[[i, j], [j, k], [k, i]].forEach\<close>: the pair is sorted
  numerically, the key is built from the two identifiers in that order.
\<close>

definition hullEdge :: "NodeData list \<Rightarrow> ConnectionStyle \<Rightarrow> nat \<Rightarrow> nat \<Rightarrow> EdgeData" where
  "hullEdge nodes style a b =
     \<lparr>e_start = pos (nodes ! a), e_end = pos (nodes ! b),
      e_mid = getEdgeControlPoint (pos (nodes ! a)) (pos (nodes ! b)) style,
      e_color = color (nodes ! a),
      nodeAId = node_id (nodes ! a), nodeBId = node_id (nodes ! b)\<rparr>"

definition addHullEdge :: "NodeData list \<Rightarrow> ConnectionStyle \<Rightarrow> nat \<times> nat \<Rightarrow> string set \<times> EdgeData list \<Rightarrow> string set \<times> EdgeData list" where
  "addHullEdge nodes style pair st =
     (let a = min (fst pair) (snd pair);
          b = max (fst pair) (snd pair);
          edgeKey = node_id (nodes ! a) @ ''-'' @ node_id (nodes ! b)
      in pushUnique edgeKey (hullEdge nodes style a b) st)"

text \<open>The body of the three nested loops, for one triple \<open>i < j < k\<close>.\<close>

definition hullTriple :: "NodeData list \<Rightarrow> ConnectionStyle \<Rightarrow> nat \<times> nat \<times> nat \<Rightarrow> FaceData list \<times> string set \<times> EdgeData list \<Rightarrow> FaceData list \<times> string set \<times> EdgeData list" where
  "hullTriple nodes style t st =
     (case t of (i, j, k) \<Rightarrow>
        if isFace nodes i j k then
          (fst st @ [hullFace nodes style i j k],
           fold (addHullEdge nodes style) [(i, j), (j, k), (k, i)] (snd st))
        else st)"

definition triples :: "nat \<Rightarrow> (nat \<times> nat \<times> nat) list" where
  "triples n = [(i, j, k). i \<leftarrow> [0..<n], j \<leftarrow> [i + 1..<n], k \<leftarrow> [j + 1..<n]]"

definition computeConvexHull :: "NodeData list \<Rightarrow> ConnectionStyle \<Rightarrow> GraphData" where
  "computeConvexHull nodes style =
     (let n = length nodes
      in if n < 4 then \<lparr>edges = [], faces = []\<rparr>
         else
           (let st = fold (hullTriple nodes style) (triples n) ([], {}, [])
            in \<lparr>edges = snd (snd st), faces = fst st\<rparr>))"

text \<open>
  The number \<^verbatim>\<open>dot\<close> that the side test compares with \<^verbatim>\<open>1e-4\<close> is computed in
  double precision from four positions (by \<^verbatim>\<open>subVectors\<close>, \<^verbatim>\<open>crossVectors\<close>,
  \<^verbatim>\<open>normalize\<close> and \<^verbatim>\<open>dot\<close>); above, the computation and the threshold are read
  over the reals. Whether a rounded \<^verbatim>\<open>dot\<close> exceeds the threshold is not settled by
  that reading. The algorithm is therefore given a second time with the computed number
  as a parameter: \<open>planeDot p1 p2 p3 pm\<close> stands for the value of \<^verbatim>\<open>normal.dot(vm)\<close>
  that the source computes from the positions of the three nodes of the triple and of
  the node \<open>m\<close>, and \<open>eps\<close> for the threshold. \<open>exactPlaneDot\<close> is the computation over
  the reals; with it and the threshold \<open>1 / 10000\<close> the second form is the first.
\<close>

definition exactPlaneDot :: "Vector3 \<Rightarrow> Vector3 \<Rightarrow> Vector3 \<Rightarrow> Vector3 \<Rightarrow> real" where
  "exactPlaneDot p1 p2 p3 pm =
     (let v1 = subVectors p2 p1;
          v2 = subVectors p3 p1;
          normal = normalizeV (crossVectors v1 v2);
          vm = subVectors pm p1
      in dot normal vm)"

fun sideScanWith :: "(Vector3 \<Rightarrow> Vector3 \<Rightarrow> Vector3 \<Rightarrow> Vector3 \<Rightarrow> real) \<Rightarrow> real \<Rightarrow> NodeData list \<Rightarrow> nat \<Rightarrow> nat \<Rightarrow> nat \<Rightarrow> real \<Rightarrow> nat list \<Rightarrow> bool" where
  "sideScanWith planeDot eps nodes i j k side [] = True"
| "sideScanWith planeDot eps nodes i j k side (m # ms) =
     (if m = i \<or> m = j \<or> m = k then sideScanWith planeDot eps nodes i j k side ms
      else
        (let d = planeDot (pos (nodes ! i)) (pos (nodes ! j)) (pos (nodes ! k)) (pos (nodes ! m))
         in if \<bar>d\<bar> > eps then
              (let currentSide = sgn d
               in if side = 0 then sideScanWith planeDot eps nodes i j k currentSide ms
                  else if side \<noteq> currentSide then False
                  else sideScanWith planeDot eps nodes i j k side ms)
            else sideScanWith planeDot eps nodes i j k side ms))"

definition isFaceWith :: "(Vector3 \<Rightarrow> Vector3 \<Rightarrow> Vector3 \<Rightarrow> Vector3 \<Rightarrow> real) \<Rightarrow> real \<Rightarrow> NodeData list \<Rightarrow> nat \<Rightarrow> nat \<Rightarrow> nat \<Rightarrow> bool" where
  "isFaceWith planeDot eps nodes i j k = sideScanWith planeDot eps nodes i j k 0 [0..<length nodes]"

definition hullTripleWith :: "(Vector3 \<Rightarrow> Vector3 \<Rightarrow> Vector3 \<Rightarrow> Vector3 \<Rightarrow> real) \<Rightarrow> real \<Rightarrow> NodeData list \<Rightarrow> ConnectionStyle \<Rightarrow> nat \<times> nat \<times> nat \<Rightarrow> FaceData list \<times> string set \<times> EdgeData list \<Rightarrow> FaceData list \<times> string set \<times> EdgeData list" where
  "hullTripleWith planeDot eps nodes style t st =
     (case t of (i, j, k) \<Rightarrow>
        if isFaceWith planeDot eps nodes i j k then
          (fst st @ [hullFace nodes style i j k],
           fold (addHullEdge nodes style) [(i, j), (j, k), (k, i)] (snd st))
        else st)"

definition computeConvexHullWith :: "(Vector3 \<Rightarrow> Vector3 \<Rightarrow> Vector3 \<Rightarrow> Vector3 \<Rightarrow> real) \<Rightarrow> real \<Rightarrow> NodeData list \<Rightarrow> ConnectionStyle \<Rightarrow> GraphData" where
  "computeConvexHullWith planeDot eps nodes style =
     (let n = length nodes
      in if n < 4 then \<lparr>edges = [], faces = []\<rparr>
         else
           (let st = fold (hullTripleWith planeDot eps nodes style) (triples n) ([], {}, [])
            in \<lparr>edges = snd (snd st), faces = fst st\<rparr>))"

section \<open>Nearest-neighbour mode (computeNearestNeighborGraph)\<close>

record Neighbor =
  nb_id :: string
  nb_dist :: real

definition effectiveNeighbors :: "NodeData list \<Rightarrow> int \<Rightarrow> int" where
  "effectiveNeighbors nodes k = max 1 (min (int (length nodes) - 1) k)"

text \<open>
  The chain \<^verbatim>\<open>filter / map / sort / slice\<close> for the node at index \<open>i\<close>. The sort
  of the source is stable and compares distances, as \<open>sort_key\<close> does; \<^verbatim>\<open>slice(0, e)\<close>
  keeps the first \<open>e\<close> elements.
\<close>

definition neighborsOf :: "NodeData list \<Rightarrow> int \<Rightarrow> nat \<Rightarrow> Neighbor list" where
  "neighborsOf nodes eff i =
     take (nat eff)
       (sort_key nb_dist
         (map (\<lambda>nodeB. \<lparr>nb_id = node_id nodeB,
                         nb_dist = distanceTo (pos (nodes ! i)) (pos nodeB)\<rparr>)
           (map (\<lambda>j. nodes ! j) (filter (\<lambda>j. i \<noteq> j) [0..<length nodes]))))"

text \<open>
  \<^verbatim>\<open>if (!adj.has(a)) adj.set(a, new Set()); adj.get(a).add(b)\<close> on the map from
  identifiers to sets of identifiers.
\<close>

definition addAdjacent :: "(string \<rightharpoonup> string set) \<Rightarrow> string \<Rightarrow> string \<Rightarrow> (string \<rightharpoonup> string set)" where
  "addAdjacent adj a b = adj(a \<mapsto> insert b (case adj a of None \<Rightarrow> {} | Some s \<Rightarrow> s))"

type_synonym LinkState = "(string \<rightharpoonup> string set) \<times> string set \<times> EdgeData list"

text \<open>
  The body of \<^verbatim>\<open>neighbors.forEach\<close> once \<^verbatim>\<open>nodeB\<close> is found. The two identifiers
  are sorted as strings (the default \<^verbatim>\<open>sort()\<close> compares code units, which is the
  lexicographic order on character codes); the edge keeps the positions and the colour
  in the order \<^verbatim>\<open>nodeA\<close>, \<^verbatim>\<open>nodeB\<close>.
\<close>

definition linkNeighbor :: "ConnectionStyle \<Rightarrow> NodeData \<Rightarrow> NodeData \<Rightarrow> LinkState \<Rightarrow> LinkState" where
  "linkNeighbor style nodeA nodeB st =
     (let adj1 = addAdjacent (fst st) (node_id nodeA) (node_id nodeB);
          adj2 = addAdjacent adj1 (node_id nodeB) (node_id nodeA);
          ids = sort [node_id nodeA, node_id nodeB];
          id1 = ids ! 0;
          id2 = ids ! 1;
          edgeKey = id1 @ ''-'' @ id2
      in (adj2,
          pushUnique edgeKey
            \<lparr>e_start = pos nodeA, e_end = pos nodeB,
             e_mid = getEdgeControlPoint (pos nodeA) (pos nodeB) style,
             e_color = color nodeA, nodeAId = id1, nodeBId = id2\<rparr>
            (snd st)))"

text \<open>
  \<^verbatim>\<open>nodes.find(x => x.id === n.id)!\<close> is \<open>find\<close>; were no node found, reading a
  field of the result would raise a TypeError, which is the value \<open>None\<close> here.
\<close>

fun linkNeighbors :: "NodeData list \<Rightarrow> ConnectionStyle \<Rightarrow> NodeData \<Rightarrow> Neighbor list \<Rightarrow> LinkState \<Rightarrow> LinkState option" where
  "linkNeighbors nodes style nodeA [] st = Some st"
| "linkNeighbors nodes style nodeA (n # ns) st =
     (case find (\<lambda>x. node_id x = nb_id n) nodes of
        None \<Rightarrow> None
      | Some nodeB \<Rightarrow> linkNeighbors nodes style nodeA ns (linkNeighbor style nodeA nodeB st))"

fun linkNodes :: "NodeData list \<Rightarrow> ConnectionStyle \<Rightarrow> int \<Rightarrow> nat list \<Rightarrow> LinkState \<Rightarrow> LinkState option" where
  "linkNodes nodes style eff [] st = Some st"
| "linkNodes nodes style eff (i # is) st =
     (case linkNeighbors nodes style (nodes ! i) (neighborsOf nodes eff i) st of
        None \<Rightarrow> None
      | Some st' \<Rightarrow> linkNodes nodes style eff is st')"

type_synonym FaceState = "string set \<times> FaceData list"

text \<open>The body of the inner \<^verbatim>\<open>nodes.forEach(nodeC => ...)\<close> of the face pass.\<close>

definition closeFace :: "NodeData list \<Rightarrow> ConnectionStyle \<Rightarrow> string \<Rightarrow> string \<Rightarrow> string set \<Rightarrow> string set \<Rightarrow> NodeData \<Rightarrow> FaceState \<Rightarrow> FaceState option" where
  "closeFace nodes style idA idB neighborsA neighborsB nodeC st =
     (if node_id nodeC \<noteq> idA \<and> node_id nodeC \<noteq> idB then
        (if node_id nodeC \<in> neighborsA \<and> node_id nodeC \<in> neighborsB then
           (let ids = sort [idA, idB, node_id nodeC];
                faceKey = ids ! 0 @ ''-'' @ ids ! 1 @ ''-'' @ ids ! 2
            in if faceKey \<notin> fst st then
                 (case find (\<lambda>n. node_id n = ids ! 0) nodes of
                    None \<Rightarrow> None
                  | Some nodeA \<Rightarrow>
                 (case find (\<lambda>n. node_id n = ids ! 1) nodes of
                    None \<Rightarrow> None
                  | Some nodeB \<Rightarrow>
                 (case find (\<lambda>n. node_id n = ids ! 2) nodes of
                    None \<Rightarrow> None
                  | Some nodeC' \<Rightarrow>
                      Some (insert faceKey (fst st),
                            snd st @
                            [\<lparr>nodeIds = (ids ! 0, ids ! 1, ids ! 2),
                              positions = (pos nodeA, pos nodeB, pos nodeC'),
                              controlPoints =
                                (getEdgeControlPoint (pos nodeA) (pos nodeB) style,
                                 getEdgeControlPoint (pos nodeB) (pos nodeC') style,
                                 getEdgeControlPoint (pos nodeC') (pos nodeA) style),
                              colors = (color nodeA, color nodeB, color nodeC')\<rparr>]))))
               else Some st)
         else Some st)
      else Some st)"

fun closeFaces :: "NodeData list \<Rightarrow> ConnectionStyle \<Rightarrow> string \<Rightarrow> string \<Rightarrow> string set \<Rightarrow> string set \<Rightarrow> NodeData list \<Rightarrow> FaceState \<Rightarrow> FaceState option" where
  "closeFaces nodes style idA idB neighborsA neighborsB [] st = Some st"
| "closeFaces nodes style idA idB neighborsA neighborsB (nodeC # cs) st =
     (case closeFace nodes style idA idB neighborsA neighborsB nodeC st of
        None \<Rightarrow> None
      | Some st' \<Rightarrow> closeFaces nodes style idA idB neighborsA neighborsB cs st')"

text \<open>
  The outer \<^verbatim>\<open>edges.forEach\<close> of the face pass; an edge one of whose ends has no
  entry in the adjacency map is skipped.
\<close>

fun faceEdges :: "NodeData list \<Rightarrow> ConnectionStyle \<Rightarrow> (string \<rightharpoonup> string set) \<Rightarrow> EdgeData list \<Rightarrow> FaceState \<Rightarrow> FaceState option" where
  "faceEdges nodes style adj [] st = Some st"
| "faceEdges nodes style adj (edge # es) st =
     (case (adj (nodeAId edge), adj (nodeBId edge)) of
        (Some neighborsA, Some neighborsB) \<Rightarrow>
          (case closeFaces nodes style (nodeAId edge) (nodeBId edge) neighborsA neighborsB nodes st of
             None \<Rightarrow> None
           | Some st' \<Rightarrow> faceEdges nodes style adj es st')
      | _ \<Rightarrow> faceEdges nodes style adj es st)"

definition computeNearestNeighborGraph :: "NodeData list \<Rightarrow> VisualSettings \<Rightarrow> GraphData option" where
  "computeNearestNeighborGraph nodes settings =
     (let eff = effectiveNeighbors nodes (connectionNeighbors settings)
      in case linkNodes nodes (connectionStyle settings) eff [0..<length nodes] (Map.empty, {}, []) of
           None \<Rightarrow> None
         | Some st \<Rightarrow>
             (case faceEdges nodes (connectionStyle settings) (fst st) (snd (snd st)) ({}, []) of
                None \<Rightarrow> None
              | Some fst' \<Rightarrow> Some \<lparr>edges = snd (snd st), faces = snd fst'\<rparr>))"

section \<open>The graph builder (useGraphData)\<close>

definition useGraphData :: "NodeData list \<Rightarrow> VisualSettings \<Rightarrow> GraphData option" where
  "useGraphData nodes settings =
     (if connectionStyle settings = StyleNone then Some \<lparr>edges = [], faces = []\<rparr>
      else if connectionMode settings = Auto
        then Some (computeConvexHull nodes (connectionStyle settings))
        else computeNearestNeighborGraph nodes settings)"

section \<open>Surface tessellation (SkillMesh)\<close>

text \<open>
  \<^verbatim>\<open>THREE.Color\<close> is the library's; \<^verbatim>\<open>new THREE.Color(c)\<close>, which reads a colour
  string into three channels, is the parameter \<open>threeColor\<close> of the definitions below.
\<close>

datatype Color = Color (cr: real) (cg: real) (cb: real)

definition getPoint :: "Vector3 \<Rightarrow> Vector3 \<Rightarrow> Vector3 \<Rightarrow> Vector3 \<Rightarrow> Vector3 \<Rightarrow> Vector3 \<Rightarrow> real \<Rightarrow> real \<Rightarrow> real \<Rightarrow> Vector3" where
  "getPoint P1 P2 P3 E1 E2 E3 u v w =
     (let p = Vector3 0 0 0;
          p = addScaledVector p P1 (u * u);
          p = addScaledVector p P2 (v * v);
          p = addScaledVector p P3 (w * w);
          p = addScaledVector p E1 (2 * u * v);
          p = addScaledVector p E2 (2 * v * w);
          p = addScaledVector p E3 (2 * w * u)
      in p)"

definition getColor :: "FillColorMode \<Rightarrow> Color \<Rightarrow> Color \<Rightarrow> Color \<Rightarrow> Color \<Rightarrow> real \<Rightarrow> real \<Rightarrow> real \<Rightarrow> Color" where
  "getColor mode sColor C1 C2 C3 u v w =
     (if mode = Gradient then
        Color (cr C1 * u + cr C2 * v + cr C3 * w)
              (cg C1 * u + cg C2 * v + cg C3 * w)
              (cb C1 * u + cb C2 * v + cb C3 * w)
      else sColor)"

definition xyz :: "Vector3 \<Rightarrow> real list" where
  "xyz p = [vx p, vy p, vz p]"

definition rgb :: "Color \<Rightarrow> real list" where
  "rgb c = [cr c, cg c, cb c]"

type_synonym Buffers = "real list \<times> real list"

text \<open>
  The body of the two nested loops of the curved branch for one cell \<open>(i, j)\<close>: the
  triangle \<open>p1 p2 p3\<close> always, the triangle \<open>p2 p4 p3\<close> when \<open>i + j + 1 < segments\<close>.
\<close>

definition curvedCell :: "FillColorMode \<Rightarrow> Color \<Rightarrow> Vector3 \<times> Vector3 \<times> Vector3 \<Rightarrow> Vector3 \<times> Vector3 \<times> Vector3 \<Rightarrow> Color \<times> Color \<times> Color \<Rightarrow> nat \<Rightarrow> nat \<times> nat \<Rightarrow> Buffers \<Rightarrow> Buffers" where
  "curvedCell mode sColor Ps Es Cs segments cell buf =
     (case Ps of (P1, P2, P3) \<Rightarrow> case Es of (E1, E2, E3) \<Rightarrow> case Cs of (C1, C2, C3) \<Rightarrow>
      case cell of (i, j) \<Rightarrow>
      (let k = real segments - real i - real j;
           u1 = real i / real segments; v1 = real j / real segments; w1 = k / real segments;
           p1 = getPoint P1 P2 P3 E1 E2 E3 u1 v1 w1; c1 = getColor mode sColor C1 C2 C3 u1 v1 w1;
           u2 = (real i + 1) / real segments; v2 = real j / real segments; w2 = (k - 1) / real segments;
           p2 = getPoint P1 P2 P3 E1 E2 E3 u2 v2 w2; c2 = getColor mode sColor C1 C2 C3 u2 v2 w2;
           u3 = real i / real segments; v3 = (real j + 1) / real segments; w3 = (k - 1) / real segments;
           p3 = getPoint P1 P2 P3 E1 E2 E3 u3 v3 w3; c3 = getColor mode sColor C1 C2 C3 u3 v3 w3;
           buf1 = (fst buf @ xyz p1 @ xyz p2 @ xyz p3, snd buf @ rgb c1 @ rgb c2 @ rgb c3)
       in if i + j + 1 < segments then
            (let u4 = (real i + 1) / real segments; v4 = (real j + 1) / real segments;
                 w4 = (k - 2) / real segments;
                 p4 = getPoint P1 P2 P3 E1 E2 E3 u4 v4 w4; c4 = getColor mode sColor C1 C2 C3 u4 v4 w4
             in (fst buf1 @ xyz p2 @ xyz p4 @ xyz p3, snd buf1 @ rgb c2 @ rgb c4 @ rgb c3))
          else buf1))"

definition cells :: "nat \<Rightarrow> (nat \<times> nat) list" where
  "cells segments = [(i, j). i \<leftarrow> [0..<segments], j \<leftarrow> [0..<segments - i]]"

text \<open>The body of \<^verbatim>\<open>faces.forEach(face => ...)\<close>.\<close>

definition tessellateFace :: "(string \<Rightarrow> Color) \<Rightarrow> FillColorMode \<Rightarrow> Color \<Rightarrow> bool \<Rightarrow> nat \<Rightarrow> FaceData \<Rightarrow> Buffers \<Rightarrow> Buffers" where
  "tessellateFace threeColor mode sColor isStraight segments face buf =
     (case positions face of (P1, P2, P3) \<Rightarrow> case colors face of (s1, s2, s3) \<Rightarrow>
      (let C1 = threeColor s1; C2 = threeColor s2; C3 = threeColor s3
       in if isStraight then
            (fst buf @ xyz P1 @ xyz P2 @ xyz P3,
             if mode = Gradient then snd buf @ rgb C1 @ rgb C2 @ rgb C3
             else snd buf @ rgb sColor @ rgb sColor @ rgb sColor)
          else
            fold (curvedCell mode sColor (P1, P2, P3) (controlPoints face) (C1, C2, C3) segments)
                 (cells segments) buf))"

text \<open>
  \<^verbatim>\<open>new Float32Array(xs)\<close> stores each number of \<open>xs\<close> as the nearest
  single-precision number, ties going to the even significand. A single-precision
  number has a significand of 24 bits and an exponent of at least \<open>-126\<close>, so the
  numbers near \<open>x\<close> are the multiples of \<open>2\<^sup>e\<^sup>-\<^sup>2\<^sup>3\<close>, where \<open>e\<close> is the exponent of
  \<open>x\<close> or \<open>-126\<close> if that is larger. Numbers too large for single precision, which the
  conversion turns into an infinity, are outside the model.
\<close>

definition roundTiesToEven :: "real \<Rightarrow> int" where
  "roundTiesToEven x =
     (let f = \<lfloor>x\<rfloor>; r = x - of_int f
      in if r < 1 / 2 then f
         else if r > 1 / 2 then f + 1
         else if even f then f else f + 1)"

definition float32 :: "real \<Rightarrow> real" where
  "float32 x =
     (if x = 0 then 0
      else
        (let e = max \<lfloor>log 2 \<bar>x\<bar>\<rfloor> (- 126);
             q = 2 powr (of_int e - 23)
         in q * of_int (roundTiesToEven (x / q))))"

text \<open>
  The memoised \<^verbatim>\<open>meshData\<close>; \<open>None\<close> is the source's \<^verbatim>\<open>null\<close>. The two arrays
  are returned as \<^verbatim>\<open>Float32Array\<close>s.
\<close>

definition meshData :: "(string \<Rightarrow> Color) \<Rightarrow> FaceData list \<Rightarrow> VisualSettings \<Rightarrow> Buffers option" where
  "meshData threeColor fs settings =
     (if \<not> fillMesh settings \<or> length fs = 0 \<or> connectionStyle settings = StyleNone then None
      else
        (let sColor = threeColor (if fillColorMode settings = Core then coreColor settings
                                  else fillSolidColor settings);
             isStraight = (connectionStyle settings = Straight);
             segments = (if isStraight then 1 else 12);
             buf = fold (tessellateFace threeColor (fillColorMode settings) sColor isStraight segments)
                        fs ([], [])
         in Some (map float32 (fst buf), map float32 (snd buf))))"

text \<open>
  What \<^verbatim>\<open>SkillMesh\<close> renders: nothing (\<open>None\<close>) without mesh data, otherwise a mesh
  element whose render order, transparency and depth writing follow \<^verbatim>\<open>isOpaque\<close>.
\<close>

record MeshElement =
  renderOrder :: nat
  positionArray :: "real list"
  positionCount :: real
  colorArray :: "real list"
  colorCount :: real
  transparent :: bool
  opacity :: real
  depthWrite :: bool

definition SkillMesh :: "(string \<Rightarrow> Color) \<Rightarrow> FaceData list \<Rightarrow> VisualSettings \<Rightarrow> MeshElement option" where
  "SkillMesh threeColor fs settings =
     (case meshData threeColor fs settings of
        None \<Rightarrow> None
      | Some buf \<Rightarrow>
          (let isOpaque = (fillOpacity settings \<ge> 0.99)
           in Some \<lparr>renderOrder = (if isOpaque then 0 else 5),
                    positionArray = fst buf,
                    positionCount = real (length (fst buf)) / 3,
                    colorArray = snd buf,
                    colorCount = real (length (snd buf)) / 3,
                    transparent = (\<not> isOpaque),
                    opacity = fillOpacity settings,
                    depthWrite = isOpaque\<rparr>))"

section \<open>The specification's reading of colour interpolation\<close>

text \<open>
  The specification's words, for comparison with \<open>getColor\<close>: colour interpolated "the
  same way" as position, that is by the quadratic formula of \<open>getPoint\<close> applied to the
  three corner colours, with the cross terms built by the control-point rule of the
  edges from the corner colours (\<open>specQuadraticColor\<close>; for the style \<open>Straight\<close> the
  control points are the midpoints).
\<close>

definition colorVector :: "Color \<Rightarrow> Vector3" where
  "colorVector c = Vector3 (cr c) (cg c) (cb c)"

definition vectorColor :: "Vector3 \<Rightarrow> Color" where
  "vectorColor p = Color (vx p) (vy p) (vz p)"

definition specQuadraticColor :: "ConnectionStyle \<Rightarrow> Color \<Rightarrow> Color \<Rightarrow> Color \<Rightarrow> real \<Rightarrow> real \<Rightarrow> real \<Rightarrow> Color" where
  "specQuadraticColor style C1 C2 C3 u v w =
     vectorColor
       (getPoint (colorVector C1) (colorVector C2) (colorVector C3)
          (getEdgeControlPoint (colorVector C1) (colorVector C2) style)
          (getEdgeControlPoint (colorVector C2) (colorVector C3) style)
          (getEdgeControlPoint (colorVector C3) (colorVector C1) style) u v w)"

section \<open>Notions used in the statements about graphs\<close>

text \<open>
  Both algorithms recognise an edge by the string \<^verbatim>\<open>`${a}-${b}`\<close> built from two
  identifiers. The identifiers of a node list are unambiguous for these keys when two
  pairs of them never give the same string; identifiers without a hyphen are.
\<close>

definition keysUnambiguous :: "string list \<Rightarrow> bool" where
  "keysUnambiguous ids =
     (\<forall>a\<in>set ids. \<forall>b\<in>set ids. \<forall>c\<in>set ids. \<forall>d\<in>set ids.
        a @ ''-'' @ b = c @ ''-'' @ d \<longrightarrow> a = c \<and> b = d)"

definition edgeKeyOf :: "EdgeData \<Rightarrow> string" where
  "edgeKeyOf e = nodeAId e @ ''-'' @ nodeBId e"

text \<open>
  An edge joins two identifiers when they are its two ends, in either order; a face is
  closed in a list of edges when each of its three pairs of identifiers is joined by an
  edge of the list.
\<close>

definition joins :: "EdgeData \<Rightarrow> string \<Rightarrow> string \<Rightarrow> bool" where
  "joins e a b = ((nodeAId e = a \<and> nodeBId e = b) \<or> (nodeAId e = b \<and> nodeBId e = a))"

definition facePairs :: "FaceData \<Rightarrow> (string \<times> string) list" where
  "facePairs f = (case nodeIds f of (a, b, c) \<Rightarrow> [(a, b), (b, c), (c, a)])"

definition faceClosed :: "EdgeData list \<Rightarrow> FaceData \<Rightarrow> bool" where
  "faceClosed es f = (\<forall>p\<in>set (facePairs f). \<exists>e\<in>set es. joins e (fst p) (snd p))"

text \<open>
  A face up to the order of its corners: the set of its corners, each an identifier with
  its position and colour, and the set of its sides, each a pair of corner positions with
  the control point between them. An edge up to its direction: its two ends, each an
  identifier with its position, and its control point. The colour of an edge is not
  part of this form.
\<close>

definition faceCorners :: "FaceData \<Rightarrow> (string \<times> Vector3 \<times> string) set" where
  "faceCorners f =
     (case nodeIds f of (a, b, c) \<Rightarrow> case positions f of (p, q, r) \<Rightarrow>
      case colors f of (x, y, z) \<Rightarrow> {(a, p, x), (b, q, y), (c, r, z)})"

definition faceSides :: "FaceData \<Rightarrow> (Vector3 set \<times> Vector3) set" where
  "faceSides f =
     (case positions f of (p, q, r) \<Rightarrow> case controlPoints f of (e1, e2, e3) \<Rightarrow>
      {({p, q}, e1), ({q, r}, e2), ({r, p}, e3)})"

definition canonFace :: "FaceData \<Rightarrow> (string \<times> Vector3 \<times> string) set \<times> (Vector3 set \<times> Vector3) set" where
  "canonFace f = (faceCorners f, faceSides f)"

definition canonEdge :: "EdgeData \<Rightarrow> (string \<times> Vector3) set \<times> Vector3" where
  "canonEdge e = ({(nodeAId e, e_start e), (nodeBId e, e_end e)}, e_mid e)"

text \<open>
  The side test of hull mode as a property of three nodes and a set of other nodes:
  the other nodes whose computed number exceeds the threshold all have the same sign.
  The computed side test is order independent on a set of nodes when, for three
  distinct nodes of the set and the remaining nodes, it gives the same answer after the
  first two or the last two of the three are exchanged, and so in every order of the
  three.
\<close>

definition sideTest :: "(Vector3 \<Rightarrow> Vector3 \<Rightarrow> Vector3 \<Rightarrow> Vector3 \<Rightarrow> real) \<Rightarrow> real \<Rightarrow> NodeData \<Rightarrow> NodeData \<Rightarrow> NodeData \<Rightarrow> NodeData set \<Rightarrow> bool" where
  "sideTest planeDot eps x y z others =
     (\<forall>m\<in>others. \<forall>m'\<in>others.
        \<bar>planeDot (pos x) (pos y) (pos z) (pos m)\<bar> > eps
        \<and> \<bar>planeDot (pos x) (pos y) (pos z) (pos m')\<bar> > eps \<longrightarrow>
        sgn (planeDot (pos x) (pos y) (pos z) (pos m)) = sgn (planeDot (pos x) (pos y) (pos z) (pos m')))"

definition orderIndependent :: "(Vector3 \<Rightarrow> Vector3 \<Rightarrow> Vector3 \<Rightarrow> Vector3 \<Rightarrow> real) \<Rightarrow> real \<Rightarrow> NodeData set \<Rightarrow> bool" where
  "orderIndependent planeDot eps S =
     (\<forall>x\<in>S. \<forall>y\<in>S. \<forall>z\<in>S. x \<noteq> y \<and> y \<noteq> z \<and> x \<noteq> z \<longrightarrow>
        sideTest planeDot eps y x z (S - {x, y, z}) = sideTest planeDot eps x y z (S - {x, y, z})
      \<and> sideTest planeDot eps x z y (S - {x, y, z}) = sideTest planeDot eps x y z (S - {x, y, z}))"

section \<open>Notions used in the statements about the mesh\<close>

text \<open>
  The colour of the vertex number \<open>n\<close> of the mesh: three consecutive entries of the
  colour buffer. The barycentric coordinates at which a cell of the curved branch emits
  its vertices, in the order of emission.
\<close>

definition vertexColor :: "Buffers \<Rightarrow> nat \<Rightarrow> real list" where
  "vertexColor buf n = take 3 (drop (3 * n) (snd buf))"

definition cellCoords :: "nat \<Rightarrow> nat \<times> nat \<Rightarrow> (real \<times> real \<times> real) list" where
  "cellCoords segments cell =
     (case cell of (i, j) \<Rightarrow>
      (let k = real segments - real i - real j;
           t1 = (real i / real segments, real j / real segments, k / real segments);
           t2 = ((real i + 1) / real segments, real j / real segments, (k - 1) / real segments);
           t3 = (real i / real segments, (real j + 1) / real segments, (k - 1) / real segments);
           t4 = ((real i + 1) / real segments, (real j + 1) / real segments, (k - 2) / real segments)
       in if i + j + 1 < segments then [t1, t2, t3, t2, t4, t3] else [t1, t2, t3]))"

section \<open>The two algorithms without their loops\<close>

text \<open>
  Descriptions used in the proofs. In hull mode: the faces and the index pairs that the
  triples passing the side test contribute, the key and the edge of an index pair, the
  signed distance of a node from the plane of three nodes, and the side test, the face
  and the edge as functions of the nodes themselves; the same faces and index pairs for
  an arbitrary test of triples, and the faces and edges, up to order, of the triples of
  a set of nodes that pass the computed side test.
\<close>

definition facePart :: "NodeData list \<Rightarrow> ConnectionStyle \<Rightarrow> (nat \<times> nat \<times> nat) list \<Rightarrow> FaceData list" where
  "facePart nodes style ts = map (\<lambda>(i, j, k). hullFace nodes style i j k) (filter (\<lambda>(i, j, k). isFace nodes i j k) ts)"

definition pairPart :: "NodeData list \<Rightarrow> (nat \<times> nat \<times> nat) list \<Rightarrow> (nat \<times> nat) list" where
  "pairPart nodes ts = concat (map (\<lambda>(i, j, k). [(i, j), (j, k), (k, i)]) (filter (\<lambda>(i, j, k). isFace nodes i j k) ts))"

definition hullKey :: "NodeData list \<Rightarrow> nat \<times> nat \<Rightarrow> string" where
  "hullKey nodes p = node_id (nodes ! min (fst p) (snd p)) @ ''-'' @ node_id (nodes ! max (fst p) (snd p))"

definition hullItem :: "NodeData list \<Rightarrow> ConnectionStyle \<Rightarrow> nat \<times> nat \<Rightarrow> EdgeData" where
  "hullItem nodes style p = hullEdge nodes style (min (fst p) (snd p)) (max (fst p) (snd p))"

definition planeDistance :: "NodeData \<Rightarrow> NodeData \<Rightarrow> NodeData \<Rightarrow> NodeData \<Rightarrow> real" where
  "planeDistance x y z m =
     dot (normalizeV (crossVectors (subVectors (pos y) (pos x)) (subVectors (pos z) (pos x))))
         (subVectors (pos m) (pos x))"

definition sidesAgree :: "NodeData \<Rightarrow> NodeData \<Rightarrow> NodeData \<Rightarrow> NodeData set \<Rightarrow> bool" where
  "sidesAgree x y z others =
     (\<forall>m\<in>others. \<forall>m'\<in>others.
        \<bar>planeDistance x y z m\<bar> > 1 / 10000 \<and> \<bar>planeDistance x y z m'\<bar> > 1 / 10000 \<longrightarrow>
        sgn (planeDistance x y z m) = sgn (planeDistance x y z m'))"

definition nodeFace :: "ConnectionStyle \<Rightarrow> NodeData \<Rightarrow> NodeData \<Rightarrow> NodeData \<Rightarrow> FaceData" where
  "nodeFace style x y z =
     \<lparr>nodeIds = (node_id x, node_id y, node_id z),
      positions = (pos x, pos y, pos z),
      controlPoints =
        (getEdgeControlPoint (pos x) (pos y) style,
         getEdgeControlPoint (pos y) (pos z) style,
         getEdgeControlPoint (pos z) (pos x) style),
      colors = (color x, color y, color z)\<rparr>"

definition nodeEdge :: "ConnectionStyle \<Rightarrow> NodeData \<Rightarrow> NodeData \<Rightarrow> EdgeData" where
  "nodeEdge style x y =
     \<lparr>e_start = pos x, e_end = pos y,
      e_mid = getEdgeControlPoint (pos x) (pos y) style,
      e_color = color x, nodeAId = node_id x, nodeBId = node_id y\<rparr>"

definition facesOf :: "(nat \<Rightarrow> nat \<Rightarrow> nat \<Rightarrow> bool) \<Rightarrow> NodeData list \<Rightarrow> ConnectionStyle \<Rightarrow> (nat \<times> nat \<times> nat) list \<Rightarrow> FaceData list" where
  "facesOf test nodes style ts = map (\<lambda>(i, j, k). hullFace nodes style i j k) (filter (\<lambda>(i, j, k). test i j k) ts)"

definition pairsOf :: "(nat \<Rightarrow> nat \<Rightarrow> nat \<Rightarrow> bool) \<Rightarrow> (nat \<times> nat \<times> nat) list \<Rightarrow> (nat \<times> nat) list" where
  "pairsOf test ts = concat (map (\<lambda>(i, j, k). [(i, j), (j, k), (k, i)]) (filter (\<lambda>(i, j, k). test i j k) ts))"

definition testedFaceSet :: "(Vector3 \<Rightarrow> Vector3 \<Rightarrow> Vector3 \<Rightarrow> Vector3 \<Rightarrow> real) \<Rightarrow> real \<Rightarrow> ConnectionStyle \<Rightarrow> NodeData set \<Rightarrow> ((string \<times> Vector3 \<times> string) set \<times> (Vector3 set \<times> Vector3) set) set" where
  "testedFaceSet planeDot eps style S =
     {canonFace (nodeFace style x y z) | x y z.
        x \<in> S \<and> y \<in> S \<and> z \<in> S \<and> x \<noteq> y \<and> y \<noteq> z \<and> x \<noteq> z \<and> sideTest planeDot eps x y z (S - {x, y, z})}"

definition testedEdgeSet :: "(Vector3 \<Rightarrow> Vector3 \<Rightarrow> Vector3 \<Rightarrow> Vector3 \<Rightarrow> real) \<Rightarrow> real \<Rightarrow> ConnectionStyle \<Rightarrow> NodeData set \<Rightarrow> ((string \<times> Vector3) set \<times> Vector3) set" where
  "testedEdgeSet planeDot eps style S =
     {canonEdge (nodeEdge style x y) | x y z.
        x \<in> S \<and> y \<in> S \<and> z \<in> S \<and> x \<noteq> y \<and> y \<noteq> z \<and> x \<noteq> z \<and> sideTest planeDot eps x y z (S - {x, y, z})}"

text \<open>
  In nearest-neighbour mode: the links (a node and one of its chosen neighbours, found
  again by identifier) in the order the loops visit them, the key, the edge and the
  adjacency update of a link, and the edges the first pass leaves.
\<close>

definition linksOf :: "NodeData list \<Rightarrow> NodeData \<Rightarrow> Neighbor list \<Rightarrow> (NodeData \<times> NodeData) list" where
  "linksOf nodes nodeA ns =
     concat (map (\<lambda>n. case find (\<lambda>x. node_id x = nb_id n) nodes of
                         None \<Rightarrow> [] | Some nodeB \<Rightarrow> [(nodeA, nodeB)]) ns)"

definition allLinks :: "NodeData list \<Rightarrow> int \<Rightarrow> nat list \<Rightarrow> (NodeData \<times> NodeData) list" where
  "allLinks nodes eff is = concat (map (\<lambda>i. linksOf nodes (nodes ! i) (neighborsOf nodes eff i)) is)"

definition sortedPair :: "string \<Rightarrow> string \<Rightarrow> string \<times> string" where
  "sortedPair a b = (if a \<le> b then (a, b) else (b, a))"

definition linkKey :: "NodeData \<times> NodeData \<Rightarrow> string" where
  "linkKey l = fst (sortedPair (node_id (fst l)) (node_id (snd l))) @ ''-'' @
               snd (sortedPair (node_id (fst l)) (node_id (snd l)))"

definition linkItem :: "ConnectionStyle \<Rightarrow> NodeData \<times> NodeData \<Rightarrow> EdgeData" where
  "linkItem style l =
     \<lparr>e_start = pos (fst l), e_end = pos (snd l),
      e_mid = getEdgeControlPoint (pos (fst l)) (pos (snd l)) style,
      e_color = color (fst l),
      nodeAId = fst (sortedPair (node_id (fst l)) (node_id (snd l))),
      nodeBId = snd (sortedPair (node_id (fst l)) (node_id (snd l)))\<rparr>"

definition linkAdj :: "NodeData \<times> NodeData \<Rightarrow> (string \<rightharpoonup> string set) \<Rightarrow> (string \<rightharpoonup> string set)" where
  "linkAdj l adj =
     addAdjacent (addAdjacent adj (node_id (fst l)) (node_id (snd l))) (node_id (snd l)) (node_id (fst l))"

definition knnEdges :: "NodeData list \<Rightarrow> VisualSettings \<Rightarrow> EdgeData list" where
  "knnEdges nodes settings =
     snd (fold (\<lambda>l. pushUnique (linkKey l) (linkItem (connectionStyle settings) l))
            (allLinks nodes (effectiveNeighbors nodes (connectionNeighbors settings)) [0..<length nodes])
            ({}, []))"

definition adjSet :: "(string \<rightharpoonup> string set) \<Rightarrow> string \<Rightarrow> string set" where
  "adjSet adj x = (case adj x of None \<Rightarrow> {} | Some s \<Rightarrow> s)"

text \<open>
  In the tessellation: the colour channels that one cell and one face add to the colour
  buffer.
\<close>

definition cellColors :: "FillColorMode \<Rightarrow> Color \<Rightarrow> Color \<times> Color \<times> Color \<Rightarrow> nat \<Rightarrow> nat \<times> nat \<Rightarrow> real list" where
  "cellColors mode sColor Cs segments cell =
     snd (curvedCell mode sColor (Vector3 0 0 0, Vector3 0 0 0, Vector3 0 0 0)
            (Vector3 0 0 0, Vector3 0 0 0, Vector3 0 0 0) Cs segments cell ([], []))"

definition faceColors :: "(string \<Rightarrow> Color) \<Rightarrow> FillColorMode \<Rightarrow> Color \<Rightarrow> bool \<Rightarrow> nat \<Rightarrow> FaceData \<Rightarrow> real list" where
  "faceColors threeColor mode sColor isStraight segments face =
     snd (tessellateFace threeColor mode sColor isStraight segments face ([], []))"

section \<open>Concrete inputs\<close>

text \<open>Small inputs on which the theorems below are instantiated.\<close>

definition whiteOnly :: "string \<Rightarrow> Color" where
  "whiteOnly c = Color 1 1 1"

text \<open>
  A reading of colour strings that gives every string the channels of
  \<^verbatim>\<open>#ef4444\<close>: the bytes \<open>239\<close>, \<open>68\<close> and \<open>68\<close> divided by \<open>255\<close>, as
  three.js reads them without colour management.
\<close>

definition redOnly :: "string \<Rightarrow> Color" where
  "redOnly c = Color (239 / 255) (68 / 255) (68 / 255)"

definition sampleFace :: FaceData where
  "sampleFace =
     \<lparr>nodeIds = (''1'', ''2'', ''3''),
      positions = (Vector3 1 0 0, Vector3 0 1 0, Vector3 0 0 1),
      controlPoints =
        (getEdgeControlPoint (Vector3 1 0 0) (Vector3 0 1 0) CurveIn,
         getEdgeControlPoint (Vector3 0 1 0) (Vector3 0 0 1) CurveIn,
         getEdgeControlPoint (Vector3 0 0 1) (Vector3 1 0 0) CurveIn),
      colors = (''#ef4444'', ''#3b82f6'', ''#a855f7'')\<rparr>"

definition sampleSettings :: VisualSettings where
  "sampleSettings =
     \<lparr>connectionStyle = CurveIn, connectionMode = Fixed, connectionNeighbors = 3,
      fillMesh = True, fillColorMode = Gradient, fillSolidColor = ''#ffffff'',
      fillOpacity = 1, coreColor = ''#000000'', labelSize = 12, minLabelSize = 8\<rparr>"

definition hullSettings :: VisualSettings where
  "hullSettings = sampleSettings\<lparr>connectionMode := Auto\<rparr>"

definition dimSettings :: VisualSettings where
  "dimSettings = sampleSettings\<lparr>fillOpacity := 1 / 5\<rparr>"

definition flatSettings :: VisualSettings where
  "flatSettings = sampleSettings\<lparr>connectionStyle := Straight\<rparr>"

definition mkNode :: "string \<Rightarrow> Vector3 \<Rightarrow> NodeData" where
  "mkNode i p = \<lparr>node_id = i, pos = p, color = ''#ffffff'', surfacePos = Vector3 0 0 0\<rparr>"

definition tetraNodes :: "NodeData list" where
  "tetraNodes = [mkNode ''1'' (Vector3 0 0 0), mkNode ''2'' (Vector3 1 0 0),
                 mkNode ''3'' (Vector3 0 1 0), mkNode ''4'' (Vector3 0 0 2)]"

definition hyphenNodes :: "NodeData list" where
  "hyphenNodes = [mkNode ''a'' (Vector3 0 0 0), mkNode ''b-c'' (Vector3 1 0 0),
                  mkNode ''a-b'' (Vector3 0 1 0), mkNode ''c'' (Vector3 0 0 2)]"

definition hyphenNodesReordered :: "NodeData list" where
  "hyphenNodesReordered = [mkNode ''b-c'' (Vector3 1 0 0), mkNode ''a'' (Vector3 0 0 0),
                  mkNode ''c'' (Vector3 0 0 2), mkNode ''a-b'' (Vector3 0 1 0)]"

definition collinearNodes :: "NodeData list" where
  "collinearNodes = [mkNode ''1'' (Vector3 0 0 0), mkNode ''2'' (Vector3 1 0 0),
                     mkNode ''3'' (Vector3 2 0 0), mkNode ''4'' (Vector3 0 1 0)]"

text \<open>
  Five nodes: the corners of a square and an apex above its centre.
\<close>

definition pyramidNodes :: "NodeData list" where
  "pyramidNodes = [mkNode ''1'' (Vector3 1 0 0), mkNode ''2'' (Vector3 0 1 0),
                   mkNode ''3'' (Vector3 (- 1) 0 0), mkNode ''4'' (Vector3 0 (- 1) 0),
                   mkNode ''5'' (Vector3 0 0 1)]"

definition pyramidNodesReordered :: "NodeData list" where
  "pyramidNodesReordered = [mkNode ''5'' (Vector3 0 0 1), mkNode ''3'' (Vector3 (- 1) 0 0),
                   mkNode ''1'' (Vector3 1 0 0), mkNode ''4'' (Vector3 0 (- 1) 0),
                   mkNode ''2'' (Vector3 0 1 0)]"

section \<open>Layout: number of points and the table for small counts\<close>

lemma length_distributePointsOnSphere:
  "length (distributePointsOnSphere n) = n"
  by (simp add: distributePointsOnSphere_def Let_def)

text \<open>
  Claim C4. For every count \<open>n\<close> the layout has exactly \<open>n\<close> points (none for
  \<open>n = 0\<close>), and for the counts 1 to 6 it is the literal table: the pole; the two poles;
  the equatorial triangle at azimuths 0, \<open>2\<pi>/3\<close>, \<open>4\<pi>/3\<close>; the pole and three points at
  inclination \<open>arccos (-1/3)\<close> spaced \<open>2\<pi>/3\<close> apart; the two poles and the
  equatorial triangle; the two poles and the equatorial square.
\<close>

theorem layout_length_and_table:
  "length (distributePointsOnSphere n) = n
   \<and> distributePointsOnSphere 0 = []
   \<and> distributePointsOnSphere 1 = [\<lparr>phi = 0, theta = 0\<rparr>]
   \<and> distributePointsOnSphere 2 = [\<lparr>phi = 0, theta = 0\<rparr>, \<lparr>phi = pi, theta = 0\<rparr>]
   \<and> distributePointsOnSphere 3 =
       [\<lparr>phi = pi / 2, theta = 0\<rparr>,
        \<lparr>phi = pi / 2, theta = 2 * pi / 3\<rparr>,
        \<lparr>phi = pi / 2, theta = 4 * pi / 3\<rparr>]
   \<and> distributePointsOnSphere 4 =
       [\<lparr>phi = 0, theta = 0\<rparr>,
        \<lparr>phi = arccos (- 1 / 3), theta = 0\<rparr>,
        \<lparr>phi = arccos (- 1 / 3), theta = 2 * pi / 3\<rparr>,
        \<lparr>phi = arccos (- 1 / 3), theta = 4 * pi / 3\<rparr>]
   \<and> distributePointsOnSphere 5 =
       [\<lparr>phi = 0, theta = 0\<rparr>,
        \<lparr>phi = pi, theta = 0\<rparr>,
        \<lparr>phi = pi / 2, theta = 0\<rparr>,
        \<lparr>phi = pi / 2, theta = 2 * pi / 3\<rparr>,
        \<lparr>phi = pi / 2, theta = 4 * pi / 3\<rparr>]
   \<and> distributePointsOnSphere 6 =
       [\<lparr>phi = 0, theta = 0\<rparr>,
        \<lparr>phi = pi, theta = 0\<rparr>,
        \<lparr>phi = pi / 2, theta = 0\<rparr>,
        \<lparr>phi = pi / 2, theta = pi / 2\<rparr>,
        \<lparr>phi = pi / 2, theta = pi\<rparr>,
        \<lparr>phi = pi / 2, theta = 3 * pi / 2\<rparr>]"
  by (simp add: distributePointsOnSphere_def Let_def)


section \<open>Layout: the spiral for larger counts\<close>

lemma sqrt5_gt2: "2 < sqrt 5"
  by (rule real_less_rsqrt) simp

lemma sqrt5_lt3: "sqrt 5 < 3"
  by (rule real_less_lsqrt) simp_all

lemma golden_bounds: "1 < (1 + sqrt 5) / 2 \<and> (1 + sqrt 5) / 2 < 2"
  using sqrt5_gt2 sqrt5_lt3 by simp

lemma spiral_nth:
  assumes "7 \<le> n" "i < n"
  shows "distributePointsOnSphere n ! i =
     \<lparr>phi = arccos (1 - 2 * (real i + 1 / 2) / real n),
      theta = 2 * pi * real i / ((1 + sqrt 5) / 2)\<rparr>"
  using assms by (simp add: distributePointsOnSphere_def Let_def)

lemma azimuth_lt_iff:
  "(2 * pi * real i / ((1 + sqrt 5) / 2) < 2 * pi) = (i < 2)"
proof -
  let ?g = "(1 + sqrt 5) / 2"
  have g: "1 < ?g" "?g < 2" using golden_bounds by simp_all
  have g0: "0 < ?g" using g by linarith
  have "(2 * pi * real i / ?g < 2 * pi) = (2 * pi * real i < 2 * pi * ?g)"
    by (rule pos_divide_less_eq [OF g0])
  also have "\<dots> = (real i < ?g)"
    by (rule mult_less_cancel_left_pos) simp
  also have "\<dots> = (i < 2)"
  proof
    assume "real i < ?g"
    then have "real i < 2" using g by linarith
    then show "i < 2" by simp
  next
    assume "i < 2"
    then have "real i \<le> 1" by simp
    then show "real i < ?g" using g by linarith
  qed
  finally show ?thesis .
qed

lemma azimuth_nonneg: "0 \<le> 2 * pi * real i / ((1 + sqrt 5) / 2)"
  using golden_bounds by simp

text \<open>
  Claim C1, as the code has it. For every count \<open>n \<ge> 7\<close> and index \<open>i < n\<close> the point at
  index \<open>i\<close> has inclination \<open>arccos (1 - 2 (i + 1/2) / n)\<close> and azimuth
  \<open>2 \<pi> i / ((1 + \<surd>5) / 2)\<close>. The azimuth is not reduced modulo \<open>2\<pi>\<close>: it is never
  negative, and it is below \<open>2\<pi>\<close> for the indices 0 and 1 only.
\<close>

theorem spiral_layout:
  assumes "7 \<le> n" "i < n"
  shows "distributePointsOnSphere n ! i =
           \<lparr>phi = arccos (1 - 2 * (real i + 1 / 2) / real n),
            theta = 2 * pi * real i / ((1 + sqrt 5) / 2)\<rparr>
         \<and> 0 \<le> theta (distributePointsOnSphere n ! i)
         \<and> (theta (distributePointsOnSphere n ! i) < 2 * pi) = (i < 2)"
  using spiral_nth [OF assms] azimuth_lt_iff [of i] azimuth_nonneg [of i] by simp

theorem spiral_layout_witness:
  "(7::nat) \<le> 7 \<and> (2::nat) < 7
   \<and> 0 \<le> theta (distributePointsOnSphere 7 ! 2)
   \<and> \<not> theta (distributePointsOnSphere 7 ! 2) < 2 * pi"
proof -
  have h: "(7::nat) \<le> 7" "(2::nat) < 7" by simp_all
  have "0 \<le> theta (distributePointsOnSphere 7 ! 2)
      \<and> (theta (distributePointsOnSphere 7 ! 2) < 2 * pi) = ((2::nat) < 2)"
    using spiral_layout [OF h] by blast
  then show ?thesis by simp
qed

text \<open>
  The claim as stated fails: the third point of the layout of seven has an azimuth of
  \<open>4\<pi> / ((1 + \<surd>5) / 2)\<close>, which is not in \<open>[0, 2\<pi>)\<close>.
\<close>

theorem spiral_azimuth_counterexample:
  "\<not> (theta (distributePointsOnSphere 7 ! 2) < 2 * pi)"
proof -
  have h: "(7::nat) \<le> 7" "(2::nat) < 7" by simp_all
  have "theta (distributePointsOnSphere 7 ! 2) = 2 * pi * real 2 / ((1 + sqrt 5) / 2)"
    using spiral_nth [OF h] by simp
  then show ?thesis using azimuth_lt_iff [of 2] by simp
qed

section \<open>Label scaling\<close>

lemma labelFontSize_le: "labelFontSize l m d \<le> max 1500 l"
  by (auto simp add: labelFontSize_def Let_def min_def max_def)

lemma labelFontSize_cases: "labelFontSize l m d \<le> 1500 \<or> labelFontSize l m d = l"
  by (auto simp add: labelFontSize_def Let_def min_def)

text \<open>
  Claim C8, as the code has it. The ceiling of 1500 applies to the boosted size only: the
  result is either at most 1500 or the base label size itself, returned unchanged. So
  the result never exceeds the larger of 1500 and the base size, and never exceeds 1500
  when the base size does not.
\<close>

theorem label_size_ceiling:
  "labelFontSize l m d \<le> max 1500 l
   \<and> (l \<le> 1500 \<longrightarrow> labelFontSize l m d \<le> 1500)
   \<and> (labelFontSize l m d = l \<or> labelFontSize l m d \<le> 1500)"
  using labelFontSize_le [of l m d] labelFontSize_cases [of l m d] by auto

theorem label_size_ceiling_witness:
  "(12::real) \<le> 1500 \<and> labelFontSize 12 8 100 \<le> 1500"
  using label_size_ceiling [of 12 8 100] by simp

text \<open>
  The claim as stated fails: with a base size of 2000, a minimum of 10 and a distance of
  15 the on-screen size is not below the minimum, and the base size is returned.
\<close>

theorem label_size_counterexample:
  "labelFontSize 2000 10 15 = 2000 \<and> \<not> labelFontSize 2000 10 15 \<le> 1500"
  by (simp add: labelFontSize_def Let_def HTML_DISTANCE_FACTOR_def)

section \<open>Tessellation: sizes of the buffers\<close>

lemma length_curvedCell:
  "length (fst (curvedCell mode sColor Ps Es Cs segments cell buf)) =
     length (fst buf) + (if fst cell + snd cell + 1 < segments then 18 else 9)"
  "length (snd (curvedCell mode sColor Ps Es Cs segments cell buf)) =
     length (snd buf) + (if fst cell + snd cell + 1 < segments then 18 else 9)"
  by (simp_all add: curvedCell_def xyz_def rgb_def Let_def split: prod.splits)

lemma length_fold_curvedCell:
  "length (fst (fold (curvedCell mode sColor Ps Es Cs segments) cs buf)) =
     length (fst buf) + (\<Sum>c\<leftarrow>cs. if fst c + snd c + 1 < segments then 18 else 9)"
  "length (snd (fold (curvedCell mode sColor Ps Es Cs segments) cs buf)) =
     length (snd buf) + (\<Sum>c\<leftarrow>cs. if fst c + snd c + 1 < segments then 18 else 9)"
  by (induction cs arbitrary: buf) (simp_all add: length_curvedCell)

lemma cells12_sum: "(\<Sum>c\<leftarrow>cells 12. if fst c + snd c < 11 then 18 else 9) = (1296::nat)"
  by (simp add: cells_def upt_rec)

lemma length_tessellateFace:
  "length (fst (tessellateFace threeColor mode sColor isStraight (if isStraight then 1 else 12) face buf)) =
     length (fst buf) + (if isStraight then 9 else 1296)"
  "length (snd (tessellateFace threeColor mode sColor isStraight (if isStraight then 1 else 12) face buf)) =
     length (snd buf) + (if isStraight then 9 else 1296)"
  by (simp_all add: tessellateFace_def Let_def xyz_def rgb_def length_fold_curvedCell cells12_sum
      split: prod.splits)

lemma length_fold_tessellateFace:
  "length (fst (fold (tessellateFace threeColor mode sColor isStraight (if isStraight then 1 else 12)) fs buf)) =
     length (fst buf) + (if isStraight then 9 else 1296) * length fs"
  "length (snd (fold (tessellateFace threeColor mode sColor isStraight (if isStraight then 1 else 12)) fs buf)) =
     length (snd buf) + (if isStraight then 9 else 1296) * length fs"
  by (induction fs arbitrary: buf) (simp_all add: length_tessellateFace)

lemma meshData_Some:
  assumes "fillMesh settings" "fs \<noteq> []" "connectionStyle settings \<noteq> StyleNone"
  shows "\<exists>buf. meshData threeColor fs settings = Some buf
     \<and> length (fst buf) = (if connectionStyle settings = Straight then 9 else 1296) * length fs
     \<and> length (snd buf) = (if connectionStyle settings = Straight then 9 else 1296) * length fs"
  using assms
    length_fold_tessellateFace [of threeColor "fillColorMode settings" _
      "connectionStyle settings = Straight" fs "([], [])"]
  by (simp add: meshData_def Let_def)

lemma meshData_memo:
  assumes "fillMesh s' = fillMesh s" "fillColorMode s' = fillColorMode s"
    "fillSolidColor s' = fillSolidColor s" "connectionStyle s' = connectionStyle s"
    "coreColor s' = coreColor s"
  shows "meshData threeColor fs s' = meshData threeColor fs s"
  using assms by (simp add: meshData_def)

lemma SkillMesh_count:
  assumes "fillMesh settings" "fs \<noteq> []" "connectionStyle settings \<noteq> StyleNone"
  shows "\<exists>m. SkillMesh threeColor fs settings = Some m
      \<and> positionCount m = (if connectionStyle settings = Straight then 3 else 3 * 144) * real (length fs)
      \<and> colorCount m = (if connectionStyle settings = Straight then 3 else 3 * 144) * real (length fs)"
proof -
  obtain buf where b: "meshData threeColor fs settings = Some buf"
     "length (fst buf) = (if connectionStyle settings = Straight then 9 else 1296) * length fs"
     "length (snd buf) = (if connectionStyle settings = Straight then 9 else 1296) * length fs"
    using meshData_Some [OF assms] by blast
  show ?thesis using b by (simp add: SkillMesh_def Let_def)
qed

lemma sample_renders:
  "fillMesh sampleSettings" "[sampleFace] \<noteq> []" "connectionStyle sampleSettings \<noteq> StyleNone"
  "connectionStyle sampleSettings \<noteq> Straight" "fillOpacity sampleSettings = 1"
  by (simp_all add: sampleSettings_def)

text \<open>
  Claim C6. One flat face adds 3 vertices (9 coordinates and 9 colour channels) to the
  buffers, one curved face with 12 subdivisions adds 144 triangles, that is 432
  vertices; whenever a mesh is produced its vertex count is 3, or 432, times the number of
  faces. The buffers are a function of the faces and of the five settings the mesh data
  is memoised on: two settings that agree on them give the same buffers.
\<close>

theorem tessellation_vertex_count:
  "length (fst (tessellateFace threeColor mode sColor True 1 face buf)) = length (fst buf) + 3 * 3
   \<and> length (snd (tessellateFace threeColor mode sColor True 1 face buf)) = length (snd buf) + 3 * 3
   \<and> length (fst (tessellateFace threeColor mode sColor False 12 face buf)) = length (fst buf) + 3 * 432
   \<and> length (snd (tessellateFace threeColor mode sColor False 12 face buf)) = length (snd buf) + 3 * 432
   \<and> (fillMesh settings \<and> fs \<noteq> [] \<and> connectionStyle settings \<noteq> StyleNone \<longrightarrow>
        (\<exists>m. SkillMesh threeColor fs settings = Some m
           \<and> positionCount m = (if connectionStyle settings = Straight then 3 else 3 * 144) * real (length fs)
           \<and> colorCount m = (if connectionStyle settings = Straight then 3 else 3 * 144) * real (length fs)))
   \<and> (fillMesh s' = fillMesh settings \<and> fillColorMode s' = fillColorMode settings
        \<and> fillSolidColor s' = fillSolidColor settings \<and> connectionStyle s' = connectionStyle settings
        \<and> coreColor s' = coreColor settings \<longrightarrow>
        meshData threeColor fs s' = meshData threeColor fs settings)"
  using length_tessellateFace [of threeColor mode sColor True face buf]
    length_tessellateFace [of threeColor mode sColor False face buf]
    SkillMesh_count [of settings fs threeColor]
    meshData_memo [of s' settings threeColor fs]
  by simp

theorem tessellation_vertex_count_witness:
  "(\<exists>m. SkillMesh whiteOnly [sampleFace] sampleSettings = Some m
        \<and> positionCount m = 432 \<and> colorCount m = 432)
   \<and> meshData whiteOnly [sampleFace] (sampleSettings\<lparr>fillOpacity := 1 / 2\<rparr>) =
       meshData whiteOnly [sampleFace] sampleSettings"
  using tessellation_vertex_count [of whiteOnly _ _ sampleFace _ sampleSettings "[sampleFace]"
      "sampleSettings\<lparr>fillOpacity := 1 / 2\<rparr>"]
    sample_renders
  by simp

section \<open>Tessellation: the opaque flag\<close>

lemma SkillMesh_flags:
  assumes "fillMesh settings" "fs \<noteq> []" "connectionStyle settings \<noteq> StyleNone"
  shows "\<exists>m. SkillMesh threeColor fs settings = Some m
      \<and> renderOrder m = (if fillOpacity settings \<ge> 99 / 100 then 0 else 5)
      \<and> transparent m = (\<not> fillOpacity settings \<ge> 99 / 100)
      \<and> depthWrite m = (fillOpacity settings \<ge> 99 / 100)
      \<and> opacity m = fillOpacity settings"
proof -
  obtain buf where b: "meshData threeColor fs settings = Some buf"
    using meshData_Some [OF assms] by blast
  show ?thesis using b by (simp add: SkillMesh_def Let_def)
qed

lemma SkillMesh_None:
  assumes "\<not> fillMesh settings \<or> fs = [] \<or> connectionStyle settings = StyleNone"
  shows "SkillMesh threeColor fs settings = None"
  using assms by (auto simp add: SkillMesh_def meshData_def)

text \<open>
  Claim C10. The mesh is rendered exactly when filling is on, there is a face and the
  connection style is not \<open>none\<close>, whatever the fill opacity. When it is rendered and the
  fill opacity is at least 0.99, it has render order 0, is not transparent and writes
  depth; when it is rendered and the fill opacity is below 0.99, it has render order 5,
  is transparent and does not write depth. So of a rendered mesh the opaque settings hold
  exactly when the fill opacity is at least 0.99, and the transparent ones exactly when
  it is below.
\<close>

theorem opaque_flag:
  "(fillMesh settings \<and> fs \<noteq> [] \<and> connectionStyle settings \<noteq> StyleNone \<longrightarrow>
      (\<exists>m. SkillMesh threeColor fs settings = Some m
         \<and> renderOrder m = (if fillOpacity settings \<ge> 99 / 100 then 0 else 5)
         \<and> transparent m = (\<not> fillOpacity settings \<ge> 99 / 100)
         \<and> depthWrite m = (fillOpacity settings \<ge> 99 / 100)
         \<and> opacity m = fillOpacity settings))
   \<and> (\<not> (fillMesh settings \<and> fs \<noteq> [] \<and> connectionStyle settings \<noteq> StyleNone) \<longrightarrow>
         SkillMesh threeColor fs settings = None)
   \<and> (\<forall>m. SkillMesh threeColor fs settings = Some m \<longrightarrow>
         ((renderOrder m = 0 \<and> \<not> transparent m \<and> depthWrite m) = (fillOpacity settings \<ge> 99 / 100))
       \<and> ((renderOrder m = 5 \<and> transparent m \<and> \<not> depthWrite m) = (fillOpacity settings < 99 / 100)))"
proof (intro conjI impI allI)
  assume "fillMesh settings \<and> fs \<noteq> [] \<and> connectionStyle settings \<noteq> StyleNone"
  then show "\<exists>m. SkillMesh threeColor fs settings = Some m
         \<and> renderOrder m = (if fillOpacity settings \<ge> 99 / 100 then 0 else 5)
         \<and> transparent m = (\<not> fillOpacity settings \<ge> 99 / 100)
         \<and> depthWrite m = (fillOpacity settings \<ge> 99 / 100)
         \<and> opacity m = fillOpacity settings"
    using SkillMesh_flags [of settings fs threeColor] by blast
next
  assume "\<not> (fillMesh settings \<and> fs \<noteq> [] \<and> connectionStyle settings \<noteq> StyleNone)"
  then have "\<not> fillMesh settings \<or> fs = [] \<or> connectionStyle settings = StyleNone" by blast
  then show "SkillMesh threeColor fs settings = None"
    by (rule SkillMesh_None)
next
  fix m assume "SkillMesh threeColor fs settings = Some m"
  then show "(renderOrder m = 0 \<and> \<not> transparent m \<and> depthWrite m) = (fillOpacity settings \<ge> 99 / 100)"
    by (auto simp add: SkillMesh_def Let_def split: option.splits if_splits)
next
  fix m assume "SkillMesh threeColor fs settings = Some m"
  then show "(renderOrder m = 5 \<and> transparent m \<and> \<not> depthWrite m) = (fillOpacity settings < 99 / 100)"
    by (auto simp add: SkillMesh_def Let_def split: option.splits if_splits)
qed

theorem opaque_flag_witness:
  "(\<exists>m. SkillMesh whiteOnly [sampleFace] sampleSettings = Some m
       \<and> renderOrder m = 0 \<and> \<not> transparent m \<and> depthWrite m \<and> opacity m = 1)
   \<and> (\<exists>m. SkillMesh whiteOnly [sampleFace] dimSettings = Some m
       \<and> renderOrder m = 5 \<and> transparent m \<and> \<not> depthWrite m \<and> opacity m = 1 / 5)
   \<and> SkillMesh whiteOnly [] dimSettings = None"
proof -
  have h: "fillMesh dimSettings" "connectionStyle dimSettings \<noteq> StyleNone" "fillOpacity dimSettings = 1 / 5"
    by (simp_all add: dimSettings_def sampleSettings_def)
  have a: "\<exists>m. SkillMesh whiteOnly [sampleFace] sampleSettings = Some m
       \<and> renderOrder m = 0 \<and> \<not> transparent m \<and> depthWrite m \<and> opacity m = 1"
    using conjunct1 [OF opaque_flag [of sampleSettings "[sampleFace]" whiteOnly]] sample_renders
    by simp
  have b: "\<exists>m. SkillMesh whiteOnly [sampleFace] dimSettings = Some m
       \<and> renderOrder m = 5 \<and> transparent m \<and> \<not> depthWrite m \<and> opacity m = 1 / 5"
    using conjunct1 [OF opaque_flag [of dimSettings "[sampleFace]" whiteOnly]] h
    by simp
  have c: "SkillMesh whiteOnly [] dimSettings = None"
    using conjunct1 [OF conjunct2 [OF opaque_flag [of dimSettings "[]" whiteOnly]]] by simp
  show ?thesis using a b c by (intro conjI)
qed

section \<open>Tessellation: colour\<close>

lemma getColor_linear:
  "getColor Gradient sColor C1 C2 C3 u v w =
     Color (cr C1 * u + cr C2 * v + cr C3 * w)
           (cg C1 * u + cg C2 * v + cg C3 * w)
           (cb C1 * u + cb C2 * v + cb C3 * w)"
  by (simp add: getColor_def)

lemma getColor_corners:
  "getColor Gradient sColor C1 C2 C3 1 0 0 = C1"
  "getColor Gradient sColor C1 C2 C3 0 1 0 = C2"
  "getColor Gradient sColor C1 C2 C3 0 0 1 = C3"
  by (simp_all add: getColor_def)

lemma getColor_quadratic:
  assumes "u + v + w = 1"
  shows "getColor Gradient sColor C1 C2 C3 u v w = specQuadraticColor Straight C1 C2 C3 u v w"
proof -
  have w: "w = 1 - u - v" using assms by simp
  have q: "a * u + b * v + c * w =
      a * (u * u) + b * (v * v) + c * (w * w) + (a + b) * (u * v)
        + (b + c) * (v * w) + (c + a) * (w * u)" for a b c :: real
    unfolding w by (simp add: algebra_simps)
  show ?thesis
    by (simp add: getColor_def specQuadraticColor_def vectorColor_def getPoint_def colorVector_def
        getEdgeControlPoint_def addScaledVector_def multiplyScalar_def addVectors_def Let_def
        q [symmetric])
qed

lemma cellCoords_sum:
  assumes "0 < segments" "t \<in> set (cellCoords segments cell)"
  shows "fst t + fst (snd t) + snd (snd t) = 1"
proof -
  obtain i j where c: "cell = (i, j)" by (cases cell)
  have s: "real segments \<noteq> 0" using assms(1) by simp
  show ?thesis using assms(2) s unfolding c cellCoords_def
    by (auto simp add: Let_def field_simps split: if_splits)
qed

lemma cell_colors_quadratic:
  assumes "0 < segments"
  shows "snd (curvedCell Gradient sColor Ps Es (C1, C2, C3) segments cell ([], [])) =
     concat (map (\<lambda>t. rgb (specQuadraticColor Straight C1 C2 C3 (fst t) (fst (snd t)) (snd (snd t))))
                 (cellCoords segments cell))"
proof -
  obtain i j where c: "cell = (i, j)" by (cases cell)
  have q: "rgb (specQuadraticColor Straight C1 C2 C3 (fst t) (fst (snd t)) (snd (snd t))) =
      rgb (getColor Gradient sColor C1 C2 C3 (fst t) (fst (snd t)) (snd (snd t)))"
    if "t \<in> set (cellCoords segments cell)" for t
    using getColor_quadratic [OF cellCoords_sum [OF assms that], of sColor C1 C2 C3] by simp
  have "concat (map (\<lambda>t. rgb (specQuadraticColor Straight C1 C2 C3 (fst t) (fst (snd t)) (snd (snd t))))
                 (cellCoords segments cell)) =
        concat (map (\<lambda>t. rgb (getColor Gradient sColor C1 C2 C3 (fst t) (fst (snd t)) (snd (snd t))))
                 (cellCoords segments cell))"
    using q by (intro arg_cong [where f = concat] map_cong) simp_all
  also have "\<dots> = snd (curvedCell Gradient sColor Ps Es (C1, C2, C3) segments cell ([], []))"
    unfolding c by (simp add: curvedCell_def cellCoords_def Let_def split: prod.splits)
  finally show ?thesis by simp
qed

section \<open>Single precision\<close>

lemma floor_log2:
  assumes "2 powr of_int e \<le> x" "x < 2 powr (of_int e + 1)"
  shows "\<lfloor>log 2 x\<rfloor> = e"
proof -
  have pos: "0 < x" using assms(1) powr_gt_zero [of 2 "of_int e"] by linarith
  have a: "of_int e \<le> log 2 x" using assms(1) pos by (simp add: le_log_iff)
  have b: "log 2 x < of_int e + 1" using assms(2) pos by (simp add: log_less_iff)
  show ?thesis using a b by (simp add: floor_eq_iff)
qed

lemma float32_binade:
  assumes "2 powr of_int e \<le> \<bar>x\<bar>" "\<bar>x\<bar> < 2 powr (of_int e + 1)" "- 126 \<le> e"
  shows "float32 x = 2 powr (of_int e - 23) * of_int (roundTiesToEven (x / 2 powr (of_int e - 23)))"
proof -
  have "0 < \<bar>x\<bar>" using assms(1) powr_gt_zero [of 2 "of_int e"] by linarith
  then have nz: "x \<noteq> 0" by simp
  have "\<lfloor>log 2 \<bar>x\<bar>\<rfloor> = e" by (rule floor_log2 [OF assms(1,2)])
  then show ?thesis using nz assms(3) by (simp add: float32_def Let_def max_def)
qed

lemma float32_one: "float32 1 = 1"
  by (simp add: float32_def roundTiesToEven_def Let_def powr_minus powr_numeral divide_simps)

lemma float32_byte_239: "float32 (239 / 255) = 15724528 / 16777216"
proof -
  have "float32 (239 / 255) = 2 powr (of_int (- 1) - 23) * of_int (roundTiesToEven ((239 / 255) / 2 powr (of_int (- 1) - 23)))"
    by (rule float32_binade) (simp_all add: powr_minus)
  also have "2 powr (of_int (- 1) - 23) = (1 / 16777216 :: real)"
    by (simp add: powr_minus powr_numeral divide_simps)
  also have "roundTiesToEven ((239 / 255) / (1 / 16777216)) = 15724528"
    by (simp add: roundTiesToEven_def Let_def)
  finally show ?thesis by simp
qed

lemma float32_byte_68: "float32 (68 / 255) = 8947849 / 33554432"
proof -
  have "float32 (68 / 255) = 2 powr (of_int (- 2) - 23) * of_int (roundTiesToEven ((68 / 255) / 2 powr (of_int (- 2) - 23)))"
    by (rule float32_binade) (simp_all add: powr_minus powr_numeral)
  also have "2 powr (of_int (- 2) - 23) = (1 / 33554432 :: real)"
    by (simp add: powr_minus powr_numeral divide_simps)
  also have "roundTiesToEven ((68 / 255) / (1 / 33554432)) = 8947849"
    by (simp add: roundTiesToEven_def Let_def)
  finally show ?thesis by simp
qed

section \<open>Tessellation: where the colours of a face lie in the buffer\<close>

lemma snd_curvedCell:
  "snd (curvedCell mode sColor Ps Es Cs segments cell buf) = snd buf @ cellColors mode sColor Cs segments cell"
  by (simp add: curvedCell_def cellColors_def Let_def split: prod.splits)

lemma length_cellColors:
  "length (cellColors mode sColor Cs segments cell) = (if fst cell + snd cell + 1 < segments then 18 else 9)"
  by (simp add: cellColors_def length_curvedCell)

lemma snd_fold_curvedCell:
  "snd (fold (curvedCell mode sColor Ps Es Cs segments) cs buf) =
     snd buf @ concat (map (cellColors mode sColor Cs segments) cs)"
  by (induction cs arbitrary: buf) (simp_all add: snd_curvedCell)

lemma snd_tessellateFace:
  "snd (tessellateFace threeColor mode sColor isStraight segments face buf) =
     snd buf @ faceColors threeColor mode sColor isStraight segments face"
  by (simp add: tessellateFace_def faceColors_def Let_def snd_fold_curvedCell split: prod.splits)

lemma snd_fold_tessellateFace:
  "snd (fold (tessellateFace threeColor mode sColor isStraight segments) fs buf) =
     snd buf @ concat (map (faceColors threeColor mode sColor isStraight segments) fs)"
  by (induction fs arbitrary: buf) (simp_all add: snd_tessellateFace)

lemma faceColors_curved:
  "faceColors threeColor mode sColor False segments face =
     concat (map (cellColors mode sColor
        (threeColor (fst (colors face)), threeColor (fst (snd (colors face))),
         threeColor (snd (snd (colors face)))) segments) (cells segments))"
  by (simp add: faceColors_def tessellateFace_def Let_def snd_fold_curvedCell split: prod.splits)

lemma faceColors_flat:
  "faceColors threeColor Gradient sColor True segments face =
     rgb (threeColor (fst (colors face))) @ rgb (threeColor (fst (snd (colors face))))
       @ rgb (threeColor (snd (snd (colors face))))"
  by (simp add: faceColors_def tessellateFace_def Let_def split: prod.splits)

lemma length_faceColors:
  "length (faceColors threeColor mode sColor isStraight (if isStraight then 1 else 12) face) =
     (if isStraight then 9 else 1296)"
  using length_tessellateFace(2) [of threeColor mode sColor isStraight face "([], [])"]
  by (simp add: faceColors_def)

lemma concat_at:
  assumes "cs = pre @ c # post" "length (concat (map g pre)) = n" "d + 3 \<le> length (g c)"
  shows "take 3 (drop (n + d) (concat (map g cs))) = take 3 (drop d (g c))"
  using assms by simp

lemma length_concat_const:
  assumes "\<forall>x\<in>set ys. length (g x) = L"
  shows "length (concat (map g ys)) = L * length ys"
  using assms by (induction ys) simp_all

lemma concat_block:
  assumes "\<forall>x\<in>set xs. length (g x) = L" "f < length xs" "d + 3 \<le> L"
  shows "take 3 (drop (L * f + d) (concat (map g xs))) = take 3 (drop d (g (xs ! f)))"
proof -
  have xs: "xs = take f xs @ (xs ! f) # drop (Suc f) xs"
    using assms(2) by (simp add: id_take_nth_drop)
  have "\<forall>x\<in>set (take f xs). length (g x) = L" using assms(1) by (meson in_set_takeD)
  then have "length (concat (map g (take f xs))) = L * length (take f xs)"
    by (rule length_concat_const)
  then have n: "length (concat (map g (take f xs))) = L * f" using assms(2) by simp
  have "length (g (xs ! f)) = L" using assms(1,2) by simp
  then have d: "d + 3 \<le> length (g (xs ! f))" using assms(3) by simp
  show ?thesis by (rule concat_at [OF xs n d])
qed

lemma cells12_first: "cells 12 = [] @ (0, 0) # tl (cells 12)"
  by (simp add: cells_def upt_rec)

lemma cells12_second:
  "cells 12 = map (Pair 0) [0..<11] @ (0, 11) # concat (map (\<lambda>i. map (Pair i) [0..<12 - i]) [1..<12])"
  by (simp add: cells_def upt_rec)

lemma cells12_last:
  "cells 12 = concat (map (\<lambda>i. map (Pair i) [0..<12 - i]) [0..<11]) @ (11, 0) # []"
  by (simp add: cells_def upt_rec)

lemma corner_colors:
  "take 3 (drop 3 (cellColors Gradient sColor (C1, C2, C3) 12 (11, 0))) = rgb C1"
  "take 3 (drop 6 (cellColors Gradient sColor (C1, C2, C3) 12 (0, 11))) = rgb C2"
  "take 3 (drop 0 (cellColors Gradient sColor (C1, C2, C3) 12 (0, 0))) = rgb C3"
  by (simp_all add: cellColors_def curvedCell_def rgb_def getColor_def Let_def)

lemma face_corner_colors:
  fixes face threeColor
  defines "C1 \<equiv> threeColor (fst (colors face))"
    and "C2 \<equiv> threeColor (fst (snd (colors face)))"
    and "C3 \<equiv> threeColor (snd (snd (colors face)))"
  shows "take 3 (drop 1290 (faceColors threeColor Gradient sColor False 12 face)) = rgb C1"
    and "take 3 (drop 204 (faceColors threeColor Gradient sColor False 12 face)) = rgb C2"
    and "take 3 (drop 0 (faceColors threeColor Gradient sColor False 12 face)) = rgb C3"
proof -
  let ?g = "cellColors Gradient sColor (C1, C2, C3) 12"
  have fc: "faceColors threeColor Gradient sColor False 12 face = concat (map ?g (cells 12))"
    unfolding C1_def C2_def C3_def by (rule faceColors_curved)
  have n1: "length (concat (map ?g (concat (map (\<lambda>i. map (Pair i) [0..<12 - i]) [0..<11])))) = 1287"
    by (simp add: length_cellColors upt_rec)
  have n2: "length (concat (map ?g (map (Pair 0) [0..<11]))) = 198"
    by (simp add: length_cellColors upt_rec)
  have n3: "length (concat (map ?g [])) = 0" by simp
  have "take 3 (drop (1287 + 3) (concat (map ?g (cells 12)))) = take 3 (drop 3 (?g (11, 0)))"
    by (rule concat_at [OF cells12_last n1]) (simp add: length_cellColors)
  then show "take 3 (drop 1290 (faceColors threeColor Gradient sColor False 12 face)) = rgb C1"
    unfolding fc by (simp add: corner_colors)
  have "take 3 (drop (198 + 6) (concat (map ?g (cells 12)))) = take 3 (drop 6 (?g (0, 11)))"
    by (rule concat_at [OF cells12_second n2]) (simp add: length_cellColors)
  then show "take 3 (drop 204 (faceColors threeColor Gradient sColor False 12 face)) = rgb C2"
    unfolding fc by (simp add: corner_colors)
  have "take 3 (drop (0 + 0) (concat (map ?g (cells 12)))) = take 3 (drop 0 (?g (0, 0)))"
    by (rule concat_at [OF cells12_first n3]) (simp add: length_cellColors)
  then show "take 3 (drop 0 (faceColors threeColor Gradient sColor False 12 face)) = rgb C3"
    unfolding fc using corner_colors(3) [of sColor C1 C2 C3] by simp
qed

lemma meshData_colors:
  assumes "fillMesh settings" "fs \<noteq> []" "connectionStyle settings \<noteq> StyleNone"
  shows "\<exists>buf. meshData threeColor fs settings = Some buf
     \<and> snd buf = map float32 (concat (map
          (faceColors threeColor (fillColorMode settings)
             (threeColor (if fillColorMode settings = Core then coreColor settings else fillSolidColor settings))
             (connectionStyle settings = Straight)
             (if connectionStyle settings = Straight then 1 else 12)) fs))"
  using assms by (simp add: meshData_def Let_def snd_fold_tessellateFace)

lemma vertexColor_map:
  assumes "snd buf = map float32 xs"
  shows "vertexColor buf n = map float32 (take 3 (drop (3 * n) xs))"
  by (simp add: vertexColor_def assms take_map drop_map)

lemma curved_corners_emitted:
  assumes m: "fillMesh settings" and g: "fillColorMode settings = Gradient" and f: "f < length fs"
    and c: "connectionStyle settings = CurveIn \<or> connectionStyle settings = CurveOut"
  shows "\<exists>buf. meshData threeColor fs settings = Some buf
     \<and> vertexColor buf (432 * f + 430) = map float32 (rgb (threeColor (fst (colors (fs ! f)))))
     \<and> vertexColor buf (432 * f + 68) = map float32 (rgb (threeColor (fst (snd (colors (fs ! f))))))
     \<and> vertexColor buf (432 * f) = map float32 (rgb (threeColor (snd (snd (colors (fs ! f))))))"
proof -
  have ne: "fs \<noteq> []" using f by auto
  have st: "connectionStyle settings \<noteq> StyleNone" "connectionStyle settings \<noteq> Straight" using c by auto
  let ?s = "threeColor (fillSolidColor settings)"
  let ?g = "faceColors threeColor Gradient ?s False 12"
  obtain buf where b: "meshData threeColor fs settings = Some buf"
    and s: "snd buf = map float32 (concat (map ?g fs))"
    using meshData_colors [OF m ne st(1), of threeColor] g st(2) by auto
  have len: "\<forall>x\<in>set fs. length (?g x) = 1296"
    using length_faceColors [of threeColor Gradient ?s False] by simp
  have k1: "take 3 (drop (1296 * f + 1290) (concat (map ?g fs))) = take 3 (drop 1290 (?g (fs ! f)))"
    by (rule concat_block [OF len f]) simp
  have k2: "take 3 (drop (1296 * f + 204) (concat (map ?g fs))) = take 3 (drop 204 (?g (fs ! f)))"
    by (rule concat_block [OF len f]) simp
  have k3: "take 3 (drop (1296 * f + 0) (concat (map ?g fs))) = take 3 (drop 0 (?g (fs ! f)))"
    by (rule concat_block [OF len f]) simp
  have i1: "3 * (432 * f + 430) = 1296 * f + 1290" by simp
  have i2: "3 * (432 * f + 68) = 1296 * f + 204" by simp
  have i3: "3 * (432 * f) = 1296 * f + 0" by simp
  have "vertexColor buf (432 * f + 430) = map float32 (rgb (threeColor (fst (colors (fs ! f)))))"
    unfolding vertexColor_map [OF s] i1 k1 face_corner_colors ..
  moreover have "vertexColor buf (432 * f + 68) = map float32 (rgb (threeColor (fst (snd (colors (fs ! f))))))"
    unfolding vertexColor_map [OF s] i2 k2 face_corner_colors ..
  moreover have "vertexColor buf (432 * f) = map float32 (rgb (threeColor (snd (snd (colors (fs ! f))))))"
    unfolding vertexColor_map [OF s] i3 k3 face_corner_colors ..
  ultimately show ?thesis using b by blast
qed

lemma flat_corners_emitted:
  assumes m: "fillMesh settings" and g: "fillColorMode settings = Gradient" and f: "f < length fs"
    and c: "connectionStyle settings = Straight"
  shows "\<exists>buf. meshData threeColor fs settings = Some buf
     \<and> vertexColor buf (3 * f) = map float32 (rgb (threeColor (fst (colors (fs ! f)))))
     \<and> vertexColor buf (3 * f + 1) = map float32 (rgb (threeColor (fst (snd (colors (fs ! f))))))
     \<and> vertexColor buf (3 * f + 2) = map float32 (rgb (threeColor (snd (snd (colors (fs ! f))))))"
proof -
  have ne: "fs \<noteq> []" using f by auto
  have st: "connectionStyle settings \<noteq> StyleNone" using c by auto
  let ?s = "threeColor (fillSolidColor settings)"
  let ?g = "faceColors threeColor Gradient ?s True 1"
  obtain buf where b: "meshData threeColor fs settings = Some buf"
    and s: "snd buf = map float32 (concat (map ?g fs))"
    using meshData_colors [OF m ne st, of threeColor] g c by auto
  have len: "\<forall>x\<in>set fs. length (?g x) = 9"
    using length_faceColors [of threeColor Gradient ?s True] by simp
  have k1: "take 3 (drop (9 * f + 0) (concat (map ?g fs))) = take 3 (drop 0 (?g (fs ! f)))"
    by (rule concat_block [OF len f]) simp
  have k2: "take 3 (drop (9 * f + 3) (concat (map ?g fs))) = take 3 (drop 3 (?g (fs ! f)))"
    by (rule concat_block [OF len f]) simp
  have k3: "take 3 (drop (9 * f + 6) (concat (map ?g fs))) = take 3 (drop 6 (?g (fs ! f)))"
    by (rule concat_block [OF len f]) simp
  have i1: "3 * (3 * f) = 9 * f + 0" by simp
  have i2: "3 * (3 * f + 1) = 9 * f + 3" by simp
  have i3: "3 * (3 * f + 2) = 9 * f + 6" by simp
  have "vertexColor buf (3 * f) = map float32 (rgb (threeColor (fst (colors (fs ! f)))))"
    unfolding vertexColor_map [OF s] i1 k1 by (simp add: faceColors_flat rgb_def)
  moreover have "vertexColor buf (3 * f + 1) = map float32 (rgb (threeColor (fst (snd (colors (fs ! f))))))"
    unfolding vertexColor_map [OF s] i2 k2 by (simp add: faceColors_flat rgb_def)
  moreover have "vertexColor buf (3 * f + 2) = map float32 (rgb (threeColor (snd (snd (colors (fs ! f))))))"
    unfolding vertexColor_map [OF s] i3 k3 by (simp add: faceColors_flat rgb_def)
  ultimately show ?thesis using b by blast
qed

lemma sample_gradient:
  "fillMesh sampleSettings" "fillColorMode sampleSettings = Gradient" "(0::nat) < length [sampleFace]"
  "connectionStyle sampleSettings = CurveIn \<or> connectionStyle sampleSettings = CurveOut"
  "fillMesh flatSettings" "fillColorMode flatSettings = Gradient" "connectionStyle flatSettings = Straight"
  by (simp_all add: sampleSettings_def flatSettings_def)

section \<open>Tessellation: the colour of a vertex\<close>

text \<open>
  Claim C7, as the code has it. In gradient mode the colour at barycentric coordinates
  \<open>(u, v, w)\<close> is \<open>u C1 + v C2 + w C3\<close>; where \<open>u + v + w = 1\<close> this is the quadratic
  formula of the positions, \<open>u\<^sup>2 C1 + v\<^sup>2 C2 + w\<^sup>2 C3\<close> plus the cross terms \<open>2 u v\<close>,
  \<open>2 v w\<close> and \<open>2 w u\<close> times the midpoints of the corner colours, and every cell of the
  curved branch computes its colours at coordinates that add up to one. At the corners
  the formula gives the corner colours. The colour emitted at a corner is the corner's
  colour rounded to single precision, channel by channel: in a curved mesh the vertices
  \<open>430\<close>, \<open>68\<close> and \<open>0\<close> of each face carry its first, second and third corner, in a
  flat mesh the three vertices of a face carry its three corners.
\<close>

theorem gradient_color_interpolation:
  "getColor Gradient sColor C1 C2 C3 u v w =
     Color (cr C1 * u + cr C2 * v + cr C3 * w)
           (cg C1 * u + cg C2 * v + cg C3 * w)
           (cb C1 * u + cb C2 * v + cb C3 * w)
   \<and> (u + v + w = 1 \<longrightarrow>
        getColor Gradient sColor C1 C2 C3 u v w = specQuadraticColor Straight C1 C2 C3 u v w)
   \<and> (0 < segments \<longrightarrow>
        snd (curvedCell Gradient sColor Ps Es (C1, C2, C3) segments cell ([], [])) =
          concat (map (\<lambda>t. rgb (specQuadraticColor Straight C1 C2 C3 (fst t) (fst (snd t)) (snd (snd t))))
                      (cellCoords segments cell))
        \<and> (\<forall>t\<in>set (cellCoords segments cell). fst t + fst (snd t) + snd (snd t) = 1))
   \<and> getColor Gradient sColor C1 C2 C3 1 0 0 = C1
   \<and> getColor Gradient sColor C1 C2 C3 0 1 0 = C2
   \<and> getColor Gradient sColor C1 C2 C3 0 0 1 = C3
   \<and> (fillMesh settings \<and> fillColorMode settings = Gradient \<and> f < length fs
        \<and> (connectionStyle settings = CurveIn \<or> connectionStyle settings = CurveOut) \<longrightarrow>
        (\<exists>buf. meshData threeColor fs settings = Some buf
           \<and> vertexColor buf (432 * f + 430) = map float32 (rgb (threeColor (fst (colors (fs ! f)))))
           \<and> vertexColor buf (432 * f + 68) = map float32 (rgb (threeColor (fst (snd (colors (fs ! f))))))
           \<and> vertexColor buf (432 * f) = map float32 (rgb (threeColor (snd (snd (colors (fs ! f))))))))
   \<and> (fillMesh settings \<and> fillColorMode settings = Gradient \<and> f < length fs
        \<and> connectionStyle settings = Straight \<longrightarrow>
        (\<exists>buf. meshData threeColor fs settings = Some buf
           \<and> vertexColor buf (3 * f) = map float32 (rgb (threeColor (fst (colors (fs ! f)))))
           \<and> vertexColor buf (3 * f + 1) = map float32 (rgb (threeColor (fst (snd (colors (fs ! f))))))
           \<and> vertexColor buf (3 * f + 2) = map float32 (rgb (threeColor (snd (snd (colors (fs ! f))))))))"
proof (intro conjI impI ballI)
  show "getColor Gradient sColor C1 C2 C3 u v w =
     Color (cr C1 * u + cr C2 * v + cr C3 * w)
           (cg C1 * u + cg C2 * v + cg C3 * w)
           (cb C1 * u + cb C2 * v + cb C3 * w)"
    by (rule getColor_linear)
next
  assume "u + v + w = 1"
  then show "getColor Gradient sColor C1 C2 C3 u v w = specQuadraticColor Straight C1 C2 C3 u v w"
    by (rule getColor_quadratic)
next
  assume "0 < segments"
  then show "snd (curvedCell Gradient sColor Ps Es (C1, C2, C3) segments cell ([], [])) =
          concat (map (\<lambda>t. rgb (specQuadraticColor Straight C1 C2 C3 (fst t) (fst (snd t)) (snd (snd t))))
                      (cellCoords segments cell))"
    by (rule cell_colors_quadratic)
next
  fix t assume "0 < segments" "t \<in> set (cellCoords segments cell)"
  then show "fst t + fst (snd t) + snd (snd t) = 1" by (rule cellCoords_sum)
next
  show "getColor Gradient sColor C1 C2 C3 1 0 0 = C1" by (rule getColor_corners)
  show "getColor Gradient sColor C1 C2 C3 0 1 0 = C2" by (rule getColor_corners)
  show "getColor Gradient sColor C1 C2 C3 0 0 1 = C3" by (rule getColor_corners)
next
  assume a: "fillMesh settings \<and> fillColorMode settings = Gradient \<and> f < length fs
        \<and> (connectionStyle settings = CurveIn \<or> connectionStyle settings = CurveOut)"
  show "\<exists>buf. meshData threeColor fs settings = Some buf
           \<and> vertexColor buf (432 * f + 430) = map float32 (rgb (threeColor (fst (colors (fs ! f)))))
           \<and> vertexColor buf (432 * f + 68) = map float32 (rgb (threeColor (fst (snd (colors (fs ! f))))))
           \<and> vertexColor buf (432 * f) = map float32 (rgb (threeColor (snd (snd (colors (fs ! f))))))"
    by (rule curved_corners_emitted) (use a in simp_all)
next
  assume a: "fillMesh settings \<and> fillColorMode settings = Gradient \<and> f < length fs
        \<and> connectionStyle settings = Straight"
  show "\<exists>buf. meshData threeColor fs settings = Some buf
           \<and> vertexColor buf (3 * f) = map float32 (rgb (threeColor (fst (colors (fs ! f)))))
           \<and> vertexColor buf (3 * f + 1) = map float32 (rgb (threeColor (fst (snd (colors (fs ! f))))))
           \<and> vertexColor buf (3 * f + 2) = map float32 (rgb (threeColor (snd (snd (colors (fs ! f))))))"
    by (rule flat_corners_emitted) (use a in simp_all)
qed

text \<open>
  The instance: halfway between a red and a green corner; the last cell of a face with
  a red, a green and a blue corner; and a face whose corners are white, a colour that
  single precision holds exactly, in a curved and in a flat mesh.
\<close>

theorem gradient_color_interpolation_witness:
  "(1 / 2 + 1 / 2 + 0 = (1::real))
   \<and> getColor Gradient (Color 0 0 0) (Color 1 0 0) (Color 0 1 0) (Color 0 0 1) (1 / 2) (1 / 2) 0
       = Color (1 / 2) (1 / 2) 0
   \<and> specQuadraticColor Straight (Color 1 0 0) (Color 0 1 0) (Color 0 0 1) (1 / 2) (1 / 2) 0
       = Color (1 / 2) (1 / 2) 0
   \<and> snd (curvedCell Gradient (Color 0 0 0) (positions sampleFace) (controlPoints sampleFace)
            (Color 1 0 0, Color 0 1 0, Color 0 0 1) 12 (11, 0) ([], []))
       = [11 / 12, 0, 1 / 12, 1, 0, 0, 11 / 12, 1 / 12, 0]
   \<and> (\<exists>buf. meshData whiteOnly [sampleFace] sampleSettings = Some buf
         \<and> vertexColor buf 430 = [1, 1, 1] \<and> vertexColor buf 68 = [1, 1, 1]
         \<and> vertexColor buf 0 = [1, 1, 1])
   \<and> (\<exists>buf. meshData whiteOnly [sampleFace] flatSettings = Some buf
         \<and> vertexColor buf 0 = [1, 1, 1] \<and> vertexColor buf 1 = [1, 1, 1]
         \<and> vertexColor buf 2 = [1, 1, 1])"
proof -
  note t = gradient_color_interpolation [of "Color 0 0 0" "Color 1 0 0" "Color 0 1 0"
      "Color 0 0 1" "1 / 2" "1 / 2" 0 12 "positions sampleFace" "controlPoints sampleFace" "(11, 0)"
      sampleSettings 0 "[sampleFace]" whiteOnly]
  note t' = gradient_color_interpolation [of "Color 0 0 0" "Color 1 0 0" "Color 0 1 0"
      "Color 0 0 1" "1 / 2" "1 / 2" 0 12 "positions sampleFace" "controlPoints sampleFace" "(11, 0)"
      flatSettings 0 "[sampleFace]" whiteOnly]
  have s: "1 / 2 + 1 / 2 + 0 = (1::real)" by simp
  have a: "getColor Gradient (Color 0 0 0) (Color 1 0 0) (Color 0 1 0) (Color 0 0 1) (1 / 2) (1 / 2) 0
      = Color (1 / 2) (1 / 2) 0"
    using conjunct1 [OF t] by simp
  have b: "getColor Gradient (Color 0 0 0) (Color 1 0 0) (Color 0 1 0) (Color 0 0 1) (1 / 2) (1 / 2) 0
      = specQuadraticColor Straight (Color 1 0 0) (Color 0 1 0) (Color 0 0 1) (1 / 2) (1 / 2) 0"
    using conjunct1 [OF conjunct2 [OF t]] s by blast
  have c: "specQuadraticColor Straight (Color 1 0 0) (Color 0 1 0) (Color 0 0 1) (1 / 2) (1 / 2) 0
      = Color (1 / 2) (1 / 2) 0"
    using a b by simp
  have "snd (curvedCell Gradient (Color 0 0 0) (positions sampleFace) (controlPoints sampleFace)
            (Color 1 0 0, Color 0 1 0, Color 0 0 1) 12 (11, 0) ([], [])) =
          concat (map (\<lambda>t. rgb (specQuadraticColor Straight (Color 1 0 0) (Color 0 1 0) (Color 0 0 1)
                                   (fst t) (fst (snd t)) (snd (snd t))))
                      (cellCoords 12 (11, 0)))"
    using conjunct1 [OF conjunct2 [OF conjunct2 [OF t]]] by simp
  also have "\<dots> = [11 / 12, 0, 1 / 12, 1, 0, 0, 11 / 12, 1 / 12, 0]"
    by (simp add: cellCoords_def Let_def rgb_def specQuadraticColor_def vectorColor_def
        getPoint_def colorVector_def getEdgeControlPoint_def addScaledVector_def multiplyScalar_def
        addVectors_def)
  finally have d: "snd (curvedCell Gradient (Color 0 0 0) (positions sampleFace) (controlPoints sampleFace)
            (Color 1 0 0, Color 0 1 0, Color 0 0 1) 12 (11, 0) ([], []))
       = [11 / 12, 0, 1 / 12, 1, 0, 0, 11 / 12, 1 / 12, 0]" .
  have w: "map float32 (rgb (whiteOnly x)) = [1, 1, 1]" for x
    by (simp add: whiteOnly_def rgb_def float32_one)
  have e: "\<exists>buf. meshData whiteOnly [sampleFace] sampleSettings = Some buf
         \<and> vertexColor buf 430 = [1, 1, 1] \<and> vertexColor buf 68 = [1, 1, 1]
         \<and> vertexColor buf 0 = [1, 1, 1]"
    using conjunct1 [OF conjunct2 [OF conjunct2 [OF conjunct2 [OF conjunct2 [OF conjunct2 [OF conjunct2 [OF t]]]]]]]
      sample_gradient(1,2,3,4) by (simp add: w)
  have idx: "3 * 0 = (0::nat)" "3 * 0 + 1 = (1::nat)" "3 * 0 + 2 = (2::nat)" by simp_all
  have "\<exists>buf. meshData whiteOnly [sampleFace] flatSettings = Some buf
           \<and> vertexColor buf (3 * 0) = map float32 (rgb (whiteOnly (fst (colors ([sampleFace] ! 0)))))
           \<and> vertexColor buf (3 * 0 + 1) = map float32 (rgb (whiteOnly (fst (snd (colors ([sampleFace] ! 0))))))
           \<and> vertexColor buf (3 * 0 + 2) = map float32 (rgb (whiteOnly (snd (snd (colors ([sampleFace] ! 0))))))"
    using conjunct2 [OF conjunct2 [OF conjunct2 [OF conjunct2 [OF conjunct2 [OF conjunct2 [OF conjunct2 [OF t']]]]]]]
      sample_gradient(3,5,6,7) by blast
  then have g: "\<exists>buf. meshData whiteOnly [sampleFace] flatSettings = Some buf
         \<and> vertexColor buf 0 = [1, 1, 1] \<and> vertexColor buf 1 = [1, 1, 1]
         \<and> vertexColor buf 2 = [1, 1, 1]"
    by (simp only: idx w mult_zero_right add_0)
  show ?thesis using s a c d e g by (intro conjI)
qed

text \<open>
  The claim as stated fails: the colour emitted at a corner is not always the corner's
  input colour. The red channel \<open>239 / 255\<close> of \<^verbatim>\<open>#ef4444\<close> is not a single-precision
  number, and the mesh carries \<open>15724528 / 2\<^sup>2\<^sup>4\<close> in its place.
\<close>

theorem gradient_color_counterexample:
  "\<exists>buf. meshData redOnly [sampleFace] sampleSettings = Some buf
     \<and> vertexColor buf 430 = [15724528 / 16777216, 8947849 / 33554432, 8947849 / 33554432]
     \<and> rgb (redOnly (fst (colors sampleFace))) = [239 / 255, 68 / 255, 68 / 255]
     \<and> vertexColor buf 430 \<noteq> rgb (redOnly (fst (colors sampleFace)))"
proof -
  obtain buf where b: "meshData redOnly [sampleFace] sampleSettings = Some buf"
    and v: "vertexColor buf (432 * 0 + 430) = map float32 (rgb (redOnly (fst (colors ([sampleFace] ! 0)))))"
    using curved_corners_emitted [OF sample_gradient(1,2,3,4), of redOnly] by blast
  have r: "rgb (redOnly x) = [239 / 255, 68 / 255, 68 / 255]" for x
    by (simp add: redOnly_def rgb_def)
  have i: "432 * 0 + 430 = (430::nat)" by simp
  have v': "vertexColor buf 430 = [15724528 / 16777216, 8947849 / 33554432, 8947849 / 33554432]"
    using v by (simp only: i r list.map float32_byte_239 float32_byte_68)
  have "vertexColor buf 430 \<noteq> rgb (redOnly (fst (colors sampleFace)))"
    unfolding v' r by simp
  with b v' r show ?thesis by blast
qed

section \<open>Hull mode: the loops as lists\<close>

lemma set_triples: "set (triples n) = {(i, j, k). i < j \<and> j < k \<and> k < n}"
  by (fastforce simp add: triples_def)

lemma fold_hullTriple:
  "fold (hullTriple nodes style) ts st =
     (fst st @ facePart nodes style ts, fold (addHullEdge nodes style) (pairPart nodes ts) (snd st))"
  by (induction ts arbitrary: st) (auto simp add: hullTriple_def facePart_def pairPart_def)

lemma faces_computeConvexHull:
  "faces (computeConvexHull nodes style) =
     (if length nodes < 4 then [] else facePart nodes style (triples (length nodes)))"
  by (simp add: computeConvexHull_def Let_def fold_hullTriple)

section \<open>Hull mode: degenerate triples\<close>

lemma vlength_zero_iff: "vlength v = 0 \<longleftrightarrow> v = Vector3 0 0 0"
proof -
  have "vx v * vx v + vy v * vy v + vz v * vz v = 0 \<longleftrightarrow> vx v = 0 \<and> vy v = 0 \<and> vz v = 0"
    using sum_squares_eq_zero_iff [of "vx v" "vy v"] 
    by (smt (verit) mult_eq_0_iff zero_le_square add_nonneg_eq_0_iff add_nonneg_nonneg)
  then show ?thesis by (cases v) (simp add: vlength_def)
qed

lemma normalizeV_zero: "normalizeV (Vector3 0 0 0) = Vector3 0 0 0"
  by (simp add: normalizeV_def multiplyScalar_def vlength_def)

lemma sideScan_zero: "sideScan nodes (Vector3 0 0 0) p1 i j k 0 ms"
  by (induction ms) (simp_all add: dot_def Let_def)

lemma degenerate_isFace:
  assumes "vlength (crossVectors (subVectors (pos (nodes ! j)) (pos (nodes ! i)))
                                  (subVectors (pos (nodes ! k)) (pos (nodes ! i)))) = 0"
  shows "hullNormal nodes i j k = Vector3 0 0 0" "isFace nodes i j k"
proof -
  show n: "hullNormal nodes i j k = Vector3 0 0 0"
    using assms by (simp add: hullNormal_def Let_def vlength_zero_iff normalizeV_zero)
  show "isFace nodes i j k" by (simp add: isFace_def n sideScan_zero)
qed

lemma degenerate_face_emitted:
  assumes "4 \<le> length nodes" "i < j" "j < k" "k < length nodes"
    and "vlength (crossVectors (subVectors (pos (nodes ! j)) (pos (nodes ! i)))
                                  (subVectors (pos (nodes ! k)) (pos (nodes ! i)))) = 0"
  shows "hullFace nodes style i j k \<in> set (faces (computeConvexHull nodes style))"
proof -
  have "(i, j, k) \<in> set (triples (length nodes))" using assms by (simp add: set_triples)
  moreover have "isFace nodes i j k" using degenerate_isFace(2) [OF assms(5)] .
  ultimately have "hullFace nodes style i j k \<in> set (facePart nodes style (triples (length nodes)))"
    by (force simp add: facePart_def)
  then show ?thesis using assms(1) by (simp add: faces_computeConvexHull)
qed

section \<open>Lists without repeated keys\<close>

lemma fold_pushUnique_keys:
  "fst (fold (\<lambda>p. pushUnique (key p) (item p)) ps st) = fst st \<union> key ` set ps"
  by (induction ps arbitrary: st) (auto simp add: pushUnique_def)

lemma fold_pushUnique_items:
  "set (snd (fold (\<lambda>p. pushUnique (key p) (item p)) ps st)) \<subseteq> set (snd st) \<union> item ` set ps"
proof (induction ps arbitrary: st)
  case Nil
  then show ?case by simp
next
  case (Cons p ps)
  have "set (snd (pushUnique (key p) (item p) st)) \<subseteq> set (snd st) \<union> {item p}"
    by (auto simp add: pushUnique_def)
  with Cons [of "pushUnique (key p) (item p) st"] show ?case by auto
qed

lemma fold_pushUnique_inv:
  assumes "fst st = kf ` set (snd st)" "\<forall>p\<in>set ps. kf (item p) = key p"
  shows "fst (fold (\<lambda>p. pushUnique (key p) (item p)) ps st) =
           kf ` set (snd (fold (\<lambda>p. pushUnique (key p) (item p)) ps st))"
  using assms
proof (induction ps arbitrary: st)
  case Nil
  then show ?case by simp
next
  case (Cons p ps)
  have "fst (pushUnique (key p) (item p) st) = kf ` set (snd (pushUnique (key p) (item p) st))"
    using Cons.prems by (auto simp add: pushUnique_def)
  with Cons show ?case by simp
qed

lemma fold_pushUnique_distinct:
  assumes "fst st = kf ` set (snd st)" "\<forall>p\<in>set ps. kf (item p) = key p"
    "distinct (map kf (snd st))"
  shows "distinct (map kf (snd (fold (\<lambda>p. pushUnique (key p) (item p)) ps st)))"
  using assms
proof (induction ps arbitrary: st)
  case Nil
  then show ?case by simp
next
  case (Cons p ps)
  have a: "fst (pushUnique (key p) (item p) st) = kf ` set (snd (pushUnique (key p) (item p) st))"
    using Cons.prems by (auto simp add: pushUnique_def)
  have b: "distinct (map kf (snd (pushUnique (key p) (item p) st)))"
    using Cons.prems by (auto simp add: pushUnique_def)
  from Cons.IH [OF a _ b] Cons.prems(2) show ?case by simp
qed

section \<open>Hull mode: every face has its edges\<close>

lemma addHullEdge_pushUnique:
  "addHullEdge nodes style = (\<lambda>p. pushUnique (hullKey nodes p) (hullItem nodes style p))"
  by (simp add: fun_eq_iff addHullEdge_def hullKey_def hullItem_def Let_def)

lemma edgeKeyOf_hullItem: "edgeKeyOf (hullItem nodes style p) = hullKey nodes p"
  by (simp add: edgeKeyOf_def hullItem_def hullKey_def hullEdge_def)

lemma edges_computeConvexHull:
  "edges (computeConvexHull nodes style) =
     (if length nodes < 4 then []
      else snd (fold (\<lambda>p. pushUnique (hullKey nodes p) (hullItem nodes style p))
                (pairPart nodes (triples (length nodes))) ({}, [])))"
  by (simp add: computeConvexHull_def Let_def fold_hullTriple addHullEdge_pushUnique)

lemma set_pairPart:
  "set (pairPart nodes ts) =
     {p. \<exists>i j k. (i, j, k) \<in> set ts \<and> isFace nodes i j k \<and> (p = (i, j) \<or> p = (j, k) \<or> p = (k, i))}"
  by (auto simp add: pairPart_def)

lemma set_facePart:
  "set (facePart nodes style ts) =
     {hullFace nodes style i j k | i j k. (i, j, k) \<in> set ts \<and> isFace nodes i j k}"
  by (force simp add: facePart_def)

lemma unambiguous_key:
  assumes "keysUnambiguous ids" "a \<in> set ids" "b \<in> set ids" "c \<in> set ids" "d \<in> set ids"
    "a @ ''-'' @ b = c @ ''-'' @ d"
  shows "a = c \<and> b = d"
  using assms unfolding keysUnambiguous_def by blast

lemma key_gives_edge:
  assumes u: "keysUnambiguous ids"
    and ks: "ks = edgeKeyOf ` set es"
    and es: "\<forall>e\<in>set es. nodeAId e \<in> set ids \<and> nodeBId e \<in> set ids"
    and ab: "a \<in> set ids" "b \<in> set ids" "a @ ''-'' @ b \<in> ks"
  shows "\<exists>e\<in>set es. nodeAId e = a \<and> nodeBId e = b"
proof -
  obtain e where e: "e \<in> set es" "nodeAId e @ ''-'' @ nodeBId e = a @ ''-'' @ b"
    using ab(3) ks by (auto simp add: edgeKeyOf_def)
  have "nodeAId e = a \<and> nodeBId e = b"
    using unambiguous_key [OF u _ _ ab(1,2) e(2)] es e(1) by blast
  with e(1) show ?thesis by blast
qed

lemma hull_faces_closed:
  assumes u: "keysUnambiguous (map node_id nodes)"
  shows "\<forall>f\<in>set (faces (computeConvexHull nodes style)). faceClosed (edges (computeConvexHull nodes style)) f"
proof (cases "length nodes < 4")
  case True
  then show ?thesis by (simp add: faces_computeConvexHull)
next
  case False
  let ?n = "length nodes"
  let ?ps = "pairPart nodes (triples ?n)"
  let ?st = "fold (\<lambda>p. pushUnique (hullKey nodes p) (hullItem nodes style p)) ?ps ({}, [])"
  have es: "edges (computeConvexHull nodes style) = snd ?st"
    using False by (simp add: edges_computeConvexHull)
  have ks: "fst ?st = edgeKeyOf ` set (snd ?st)"
    by (rule fold_pushUnique_inv) (simp_all add: edgeKeyOf_hullItem)
  have keys: "fst ?st = hullKey nodes ` set ?ps"
    by (simp add: fold_pushUnique_keys)
  have inr: "\<forall>p\<in>set ?ps. fst p < ?n \<and> snd p < ?n"
    by (auto simp add: set_pairPart set_triples)
  have items: "set (snd ?st) \<subseteq> hullItem nodes style ` set ?ps"
    using fold_pushUnique_items [where key = "hullKey nodes" and item = "hullItem nodes style"
        and ps = ?ps and st = "({}, [])"] by simp
  have ids: "\<forall>e\<in>set (snd ?st). nodeAId e \<in> set (map node_id nodes) \<and> nodeBId e \<in> set (map node_id nodes)"
  proof
    fix e assume "e \<in> set (snd ?st)"
    then obtain p where p: "p \<in> set ?ps" "e = hullItem nodes style p" using items by blast
    then have "min (fst p) (snd p) < ?n" "max (fst p) (snd p) < ?n" using inr by auto
    then show "nodeAId e \<in> set (map node_id nodes) \<and> nodeBId e \<in> set (map node_id nodes)"
      using p(2) by (simp add: hullItem_def hullEdge_def)
  qed
  have edge: "\<exists>e\<in>set (snd ?st). nodeAId e = node_id (nodes ! a) \<and> nodeBId e = node_id (nodes ! b)"
    if "a < b" "b < ?n" "(a, b) \<in> set ?ps \<or> (b, a) \<in> set ?ps" for a b
  proof -
    have "hullKey nodes (a, b) = hullKey nodes (b, a)"
      by (simp add: hullKey_def min.commute max.commute)
    then have "hullKey nodes (a, b) \<in> fst ?st" using that(3) keys by (metis imageI)
    then have "node_id (nodes ! a) @ ''-'' @ node_id (nodes ! b) \<in> fst ?st"
      using that(1) by (simp add: hullKey_def)
    moreover have "node_id (nodes ! a) \<in> set (map node_id nodes)" "node_id (nodes ! b) \<in> set (map node_id nodes)"
      using that(1,2) by simp_all
    ultimately show ?thesis using key_gives_edge [OF u ks ids] by blast
  qed
  show ?thesis
  proof
    fix f assume "f \<in> set (faces (computeConvexHull nodes style))"
    then obtain i j k where f: "f = hullFace nodes style i j k" "(i, j, k) \<in> set (triples ?n)" "isFace nodes i j k"
      using False by (auto simp add: faces_computeConvexHull set_facePart)
    have ord: "i < j" "j < k" "k < ?n" using f(2) by (simp_all add: set_triples)
    have mem: "(i, j) \<in> set ?ps" "(j, k) \<in> set ?ps" "(k, i) \<in> set ?ps"
      using f(2,3) by (auto simp add: set_pairPart)
    have e1: "\<exists>e\<in>set (snd ?st). nodeAId e = node_id (nodes ! i) \<and> nodeBId e = node_id (nodes ! j)"
      using edge [of i j] ord mem by simp
    have e2: "\<exists>e\<in>set (snd ?st). nodeAId e = node_id (nodes ! j) \<and> nodeBId e = node_id (nodes ! k)"
      using edge [of j k] ord mem by simp
    have e3: "\<exists>e\<in>set (snd ?st). nodeAId e = node_id (nodes ! i) \<and> nodeBId e = node_id (nodes ! k)"
      using edge [of i k] ord mem by simp
    show "faceClosed (edges (computeConvexHull nodes style)) f"
      using e1 e2 e3 by (auto simp add: faceClosed_def facePairs_def f(1) hullFace_def es joins_def Let_def)
  qed
qed

section \<open>Nearest-neighbour mode: the first pass\<close>

lemma sort_two: "sort [a, b] = (if a \<le> b then [a, b] else [b, a])" for a b :: string
  by auto

lemma linkNeighbor_split:
  "linkNeighbor style a b st =
     (linkAdj (a, b) (fst st), pushUnique (linkKey (a, b)) (linkItem style (a, b)) (snd st))"
  by (simp add: linkNeighbor_def linkAdj_def linkKey_def linkItem_def sortedPair_def Let_def
      del: sort_key_simps)
     (simp add: sort_two)

lemma fold_linkNeighbor:
  "fold (\<lambda>l. linkNeighbor style (fst l) (snd l)) L st =
     (fold linkAdj L (fst st), fold (\<lambda>l. pushUnique (linkKey l) (linkItem style l)) L (snd st))"
  by (induction L arbitrary: st) (simp_all add: linkNeighbor_split)

lemma find_node:
  assumes "i \<in> node_id ` set nodes"
  shows "\<exists>b. find (\<lambda>x. node_id x = i) nodes = Some b \<and> node_id b = i \<and> b \<in> set nodes"
proof (cases "find (\<lambda>x. node_id x = i) nodes")
  case None
  then show ?thesis using assms by (auto simp add: find_None_iff)
next
  case (Some b)
  then show ?thesis by (auto simp add: find_Some_iff)
qed

lemma neighborsOf_ids:
  assumes "n \<in> set (neighborsOf nodes eff i)"
  shows "\<exists>j<length nodes. j \<noteq> i \<and> nb_id n = node_id (nodes ! j)"
proof -
  have "n \<in> set (sort_key nb_dist
         (map (\<lambda>nodeB. \<lparr>nb_id = node_id nodeB, nb_dist = distanceTo (pos (nodes ! i)) (pos nodeB)\<rparr>)
           (map (\<lambda>j. nodes ! j) (filter (\<lambda>j. i \<noteq> j) [0..<length nodes]))))"
    using assms set_take_subset unfolding neighborsOf_def by fastforce
  then show ?thesis by auto
qed

lemma linkNeighbors_fold:
  assumes "\<forall>n\<in>set ns. nb_id n \<in> node_id ` set nodes"
  shows "linkNeighbors nodes style a ns st =
           Some (fold (\<lambda>l. linkNeighbor style (fst l) (snd l)) (linksOf nodes a ns) st)"
  using assms
proof (induction ns arbitrary: st)
  case Nil
  then show ?case by (simp add: linksOf_def)
next
  case (Cons n ns)
  obtain b where b: "find (\<lambda>x. node_id x = nb_id n) nodes = Some b"
    using find_node [of "nb_id n" nodes] Cons.prems by auto
  have "linkNeighbors nodes style a ns (linkNeighbor style a b st) =
      Some (fold (\<lambda>l. linkNeighbor style (fst l) (snd l)) (linksOf nodes a ns) (linkNeighbor style a b st))"
    using Cons by simp
  then show ?case using b by (simp add: linksOf_def)
qed

lemma linkNodes_fold:
  "linkNodes nodes style eff is st =
     Some (fold (\<lambda>l. linkNeighbor style (fst l) (snd l)) (allLinks nodes eff is) st)"
proof (induction "is" arbitrary: st)
  case Nil
  then show ?case by (simp add: allLinks_def)
next
  case (Cons i "is")
  have "\<forall>n\<in>set (neighborsOf nodes eff i). nb_id n \<in> node_id ` set nodes"
    using neighborsOf_ids [of _ nodes eff i] by (metis imageI nth_mem)
  then have "linkNeighbors nodes style (nodes ! i) (neighborsOf nodes eff i) st =
     Some (fold (\<lambda>l. linkNeighbor style (fst l) (snd l)) (linksOf nodes (nodes ! i) (neighborsOf nodes eff i)) st)"
    by (rule linkNeighbors_fold)
  then show ?case using Cons by (simp add: allLinks_def)
qed

lemma set_linksOf:
  "set (linksOf nodes a ns) \<subseteq> {a} \<times> set nodes"
proof (induction ns)
  case Nil
  then show ?case by (simp add: linksOf_def)
next
  case (Cons n ns)
  have step: "linksOf nodes a (n # ns) =
      (case find (\<lambda>x. node_id x = nb_id n) nodes of None \<Rightarrow> [] | Some nodeB \<Rightarrow> [(a, nodeB)])
        @ linksOf nodes a ns"
    by (simp add: linksOf_def)
  show ?case
  proof (cases "find (\<lambda>x. node_id x = nb_id n) nodes")
    case None
    then show ?thesis using Cons step by simp
  next
    case (Some b)
    then have "b \<in> set nodes" by (auto simp add: find_Some_iff)
    then show ?thesis using Cons step Some by simp
  qed
qed

lemma set_allLinks:
  assumes "\<forall>i\<in>set is. i < length nodes"
  shows "set (allLinks nodes eff is) \<subseteq> set nodes \<times> set nodes"
  using assms set_linksOf by (fastforce simp add: allLinks_def)

lemma adjSet_addAdjacent:
  "adjSet (addAdjacent adj a b) x = (if x = a then insert b (adjSet adj a) else adjSet adj x)"
  by (simp add: adjSet_def addAdjacent_def)

lemma adjSet_linkAdj:
  "adjSet (linkAdj l adj) x =
     adjSet adj x \<union> (if x = node_id (fst l) then {node_id (snd l)} else {})
                 \<union> (if x = node_id (snd l) then {node_id (fst l)} else {})"
  by (auto simp add: linkAdj_def adjSet_addAdjacent)

lemma adjSet_fold_linkAdj:
  "adjSet (fold linkAdj L adj) x =
     adjSet adj x \<union> {y. \<exists>l\<in>set L. (node_id (fst l) = x \<and> node_id (snd l) = y)
                               \<or> (node_id (fst l) = y \<and> node_id (snd l) = x)}"
  by (induction L arbitrary: adj) (auto simp add: adjSet_linkAdj)

section \<open>Nearest-neighbour mode: every face has its edges\<close>

lemma joins_sym: "joins e a b \<Longrightarrow> joins e b a"
  by (auto simp add: joins_def)

lemma sort_three:
  fixes a b c :: string
  shows "\<exists>p q r. sort [a, b, c] = [p, q, r] \<and>
     ((p = a \<and> q = b \<and> r = c) \<or> (p = a \<and> q = c \<and> r = b) \<or> (p = b \<and> q = a \<and> r = c)
      \<or> (p = b \<and> q = c \<and> r = a) \<or> (p = c \<and> q = a \<and> r = b) \<or> (p = c \<and> q = b \<and> r = a))"
  by auto

lemma closeFace_inv:
  assumes idA: "idA \<in> node_id ` set nodes" and idB: "idB \<in> node_id ` set nodes"
    and C: "nodeC \<in> set nodes"
    and JAB: "\<exists>e\<in>set es. joins e idA idB"
    and JA: "\<forall>y\<in>nA. \<exists>e\<in>set es. joins e idA y"
    and JB: "\<forall>y\<in>nB. \<exists>e\<in>set es. joins e idB y"
    and inv: "\<forall>f\<in>set (snd st). faceClosed es f"
  shows "\<exists>st'. closeFace nodes style idA idB nA nB nodeC st = Some st'
           \<and> (\<forall>f\<in>set (snd st'). faceClosed es f)"
proof (cases "node_id nodeC \<noteq> idA \<and> node_id nodeC \<noteq> idB \<and> node_id nodeC \<in> nA \<and> node_id nodeC \<in> nB")
  case False
  then have "closeFace nodes style idA idB nA nB nodeC st = Some st"
    by (auto simp add: closeFace_def)
  then show ?thesis using inv by simp
next
  case True
  let ?c = "node_id nodeC"
  obtain p q r where s: "sort [idA, idB, ?c] = [p, q, r]"
    and perm: "(p = idA \<and> q = idB \<and> r = ?c) \<or> (p = idA \<and> q = ?c \<and> r = idB)
      \<or> (p = idB \<and> q = idA \<and> r = ?c) \<or> (p = idB \<and> q = ?c \<and> r = idA)
      \<or> (p = ?c \<and> q = idA \<and> r = idB) \<or> (p = ?c \<and> q = idB \<and> r = idA)"
    using sort_three [of idA idB ?c] by blast
  have cin: "?c \<in> node_id ` set nodes" using C by simp
  have pin: "p \<in> node_id ` set nodes" "q \<in> node_id ` set nodes" "r \<in> node_id ` set nodes"
    using perm idA idB cin by auto
  obtain na nb nc where f: "find (\<lambda>n. node_id n = p) nodes = Some na"
    "find (\<lambda>n. node_id n = q) nodes = Some nb" "find (\<lambda>n. node_id n = r) nodes = Some nc"
    using find_node [OF pin(1)] find_node [OF pin(2)] find_node [OF pin(3)] by blast
  have JAC: "\<exists>e\<in>set es. joins e idA ?c" using JA True by blast
  have JBC: "\<exists>e\<in>set es. joins e idB ?c" using JB True by blast
  have J: "(\<exists>e\<in>set es. joins e p q) \<and> (\<exists>e\<in>set es. joins e q r) \<and> (\<exists>e\<in>set es. joins e r p)"
    using perm JAB JAC JBC joins_sym by metis
  let ?key = "p @ ''-'' @ q @ ''-'' @ r"
  show ?thesis
  proof (cases "?key \<in> fst st")
    case True
    then have "closeFace nodes style idA idB nA nB nodeC st = Some st"
      by (simp add: closeFace_def s del: sort_key_simps)
    then show ?thesis using inv by simp
  next
    case False
    let ?f = "\<lparr>nodeIds = (p, q, r),
                positions = (pos na, pos nb, pos nc),
                controlPoints =
                   (getEdgeControlPoint (pos na) (pos nb) style,
                    getEdgeControlPoint (pos nb) (pos nc) style,
                    getEdgeControlPoint (pos nc) (pos na) style),
                colors = (color na, color nb, color nc)\<rparr>"
    have "closeFace nodes style idA idB nA nB nodeC st = Some (insert ?key (fst st), snd st @ [?f])"
      using True False f by (simp add: closeFace_def s del: sort_key_simps)
    moreover have "faceClosed es ?f" using J by (simp add: faceClosed_def facePairs_def)
    ultimately show ?thesis using inv by simp
  qed
qed

lemma closeFaces_inv:
  assumes idA: "idA \<in> node_id ` set nodes" and idB: "idB \<in> node_id ` set nodes"
    and cs: "set cs \<subseteq> set nodes"
    and JAB: "\<exists>e\<in>set es. joins e idA idB"
    and JA: "\<forall>y\<in>nA. \<exists>e\<in>set es. joins e idA y"
    and JB: "\<forall>y\<in>nB. \<exists>e\<in>set es. joins e idB y"
    and inv: "\<forall>f\<in>set (snd st). faceClosed es f"
  shows "\<exists>st'. closeFaces nodes style idA idB nA nB cs st = Some st'
           \<and> (\<forall>f\<in>set (snd st'). faceClosed es f)"
  using cs inv
proof (induction cs arbitrary: st)
  case Nil
  then show ?case by simp
next
  case (Cons c cs)
  have c: "c \<in> set nodes" using Cons.prems(1) by simp
  obtain st1 where st1: "closeFace nodes style idA idB nA nB c st = Some st1"
    "\<forall>f\<in>set (snd st1). faceClosed es f"
    using closeFace_inv [OF idA idB c JAB JA JB Cons.prems(2)] by blast
  have "set cs \<subseteq> set nodes" using Cons.prems(1) by simp
  from Cons.IH [OF this st1(2)] st1(1) show ?case by simp
qed

lemma faceEdges_inv:
  assumes sub: "set es' \<subseteq> set es"
    and ids: "\<forall>e\<in>set es. nodeAId e \<in> node_id ` set nodes \<and> nodeBId e \<in> node_id ` set nodes"
    and adj: "\<forall>x s. adj x = Some s \<longrightarrow> (\<forall>y\<in>s. \<exists>e\<in>set es. joins e x y)"
    and inv: "\<forall>f\<in>set (snd st). faceClosed es f"
  shows "\<exists>st'. faceEdges nodes style adj es' st = Some st'
           \<and> (\<forall>f\<in>set (snd st'). faceClosed es f)"
  using sub inv
proof (induction es' arbitrary: st)
  case Nil
  then show ?case by simp
next
  case (Cons edge es')
  have e: "edge \<in> set es" and rest: "set es' \<subseteq> set es" using Cons.prems(1) by simp_all
  show ?case
  proof (cases "adj (nodeAId edge)")
    case None
    then show ?thesis using Cons.IH [OF rest Cons.prems(2)] by simp
  next
    case (Some nA)
    note A = Some
    show ?thesis
    proof (cases "adj (nodeBId edge)")
      case None
      then show ?thesis using A Cons.IH [OF rest Cons.prems(2)] by simp
    next
      case (Some nB)
      have JAB: "\<exists>e\<in>set es. joins e (nodeAId edge) (nodeBId edge)"
        using e by (auto simp add: joins_def)
      have JA: "\<forall>y\<in>nA. \<exists>e\<in>set es. joins e (nodeAId edge) y" using adj A by blast
      have JB: "\<forall>y\<in>nB. \<exists>e\<in>set es. joins e (nodeBId edge) y" using adj Some by blast
      obtain st1 where st1:
        "closeFaces nodes style (nodeAId edge) (nodeBId edge) nA nB nodes st = Some st1"
        "\<forall>f\<in>set (snd st1). faceClosed es f"
        using closeFaces_inv [OF _ _ _ JAB JA JB Cons.prems(2), of nodes nodes style] ids e
        by blast
      from Cons.IH [OF rest st1(2)] st1(1) A Some show ?thesis by simp
    qed
  qed
qed

lemma edgeKeyOf_linkItem: "edgeKeyOf (linkItem style l) = linkKey l"
  by (simp add: edgeKeyOf_def linkItem_def linkKey_def)

lemma knn_faces_closed:
  assumes u: "keysUnambiguous (map node_id nodes)"
  shows "\<exists>g. computeNearestNeighborGraph nodes settings = Some g
           \<and> edges g = knnEdges nodes settings
           \<and> (\<forall>f\<in>set (faces g). faceClosed (edges g) f)"
proof -
  let ?style = "connectionStyle settings"
  let ?eff = "effectiveNeighbors nodes (connectionNeighbors settings)"
  let ?L = "allLinks nodes ?eff [0..<length nodes]"
  let ?adj = "fold linkAdj ?L Map.empty"
  let ?st = "fold (\<lambda>l. pushUnique (linkKey l) (linkItem ?style l)) ?L ({}, [])"
  let ?es = "snd ?st"
  have link: "linkNodes nodes ?style ?eff [0..<length nodes] (Map.empty, {}, []) = Some (?adj, ?st)"
    by (simp add: linkNodes_fold fold_linkNeighbor)
  have L: "set ?L \<subseteq> set nodes \<times> set nodes" by (rule set_allLinks) simp
  have ks: "fst ?st = edgeKeyOf ` set ?es"
    by (rule fold_pushUnique_inv) (simp_all add: edgeKeyOf_linkItem)
  have keys: "fst ?st = linkKey ` set ?L" by (simp add: fold_pushUnique_keys)
  have items: "set ?es \<subseteq> linkItem ?style ` set ?L"
    using fold_pushUnique_items [where key = linkKey and item = "linkItem ?style"
        and ps = ?L and st = "({}, [])"] by simp
  have ids: "\<forall>e\<in>set ?es. nodeAId e \<in> node_id ` set nodes \<and> nodeBId e \<in> node_id ` set nodes"
  proof
    fix e assume "e \<in> set ?es"
    then obtain l where l: "l \<in> set ?L" "e = linkItem ?style l" using items by blast
    then have "fst l \<in> set nodes" "snd l \<in> set nodes" using L by auto
    then show "nodeAId e \<in> node_id ` set nodes \<and> nodeBId e \<in> node_id ` set nodes"
      using l(2) by (simp add: linkItem_def sortedPair_def)
  qed
  have ids': "\<forall>e\<in>set ?es. nodeAId e \<in> set (map node_id nodes) \<and> nodeBId e \<in> set (map node_id nodes)"
    using ids by simp
  have adj: "\<forall>x s. ?adj x = Some s \<longrightarrow> (\<forall>y\<in>s. \<exists>e\<in>set ?es. joins e x y)"
  proof (intro allI impI ballI)
    fix x s y assume xs: "?adj x = Some s" and y: "y \<in> s"
    have "y \<in> adjSet ?adj x" using xs y by (simp add: adjSet_def)
    moreover have "adjSet Map.empty x = {}" by (simp add: adjSet_def)
    ultimately have "y \<in> {y. \<exists>l\<in>set ?L. (node_id (fst l) = x \<and> node_id (snd l) = y)
                               \<or> (node_id (fst l) = y \<and> node_id (snd l) = x)}"
      unfolding adjSet_fold_linkAdj by simp
    then obtain l where l: "l \<in> set ?L"
      "(node_id (fst l) = x \<and> node_id (snd l) = y) \<or> (node_id (fst l) = y \<and> node_id (snd l) = x)"
      by blast
    let ?sp = "sortedPair (node_id (fst l)) (node_id (snd l))"
    have "fst ?sp @ ''-'' @ snd ?sp \<in> fst ?st" using l(1) keys by (auto simp add: linkKey_def)
    moreover have "fst ?sp \<in> set (map node_id nodes)" "snd ?sp \<in> set (map node_id nodes)"
      using l(1) L by (auto simp add: sortedPair_def)
    ultimately obtain e where e: "e \<in> set ?es" "nodeAId e = fst ?sp" "nodeBId e = snd ?sp"
      using key_gives_edge [OF u ks ids'] by blast
    have "joins e x y" using e(2,3) l(2) by (auto simp add: joins_def sortedPair_def)
    with e(1) show "\<exists>e\<in>set ?es. joins e x y" by blast
  qed
  obtain fs where fs: "faceEdges nodes ?style ?adj ?es ({}, []) = Some fs"
    "\<forall>f\<in>set (snd fs). faceClosed ?es f"
    using faceEdges_inv [OF subset_refl ids adj, of "({}, [])" ?style] by auto
  have "computeNearestNeighborGraph nodes settings = Some \<lparr>edges = ?es, faces = snd fs\<rparr>"
    using link fs(1) by (simp add: computeNearestNeighborGraph_def Let_def)
  then show ?thesis using fs(2) by (simp add: knnEdges_def)
qed

lemma useGraphData_faces_closed:
  assumes u: "keysUnambiguous (map node_id nodes)"
  shows "\<exists>g. useGraphData nodes settings = Some g
           \<and> (\<forall>f\<in>set (faces g). faceClosed (edges g) f)"
proof (cases "connectionStyle settings = StyleNone")
  case True
  then show ?thesis by (simp add: useGraphData_def)
next
  case False
  show ?thesis
  proof (cases "connectionMode settings = Auto")
    case True
    then show ?thesis using False hull_faces_closed [OF u] by (simp add: useGraphData_def)
  next
    case False
    then show ?thesis using \<open>connectionStyle settings \<noteq> StyleNone\<close> knn_faces_closed [OF u, of settings]
      by (auto simp add: useGraphData_def)
  qed
qed

section \<open>Nearest-neighbour mode: all neighbours\<close>

lemma hyphen_split:
  assumes "CHR ''-'' \<notin> set a" "CHR ''-'' \<notin> set c" "a @ ''-'' @ b = c @ ''-'' @ d"
  shows "a = c \<and> b = d"
proof -
  have "takeWhile (\<lambda>x. x \<noteq> CHR ''-'') (a @ ''-'' @ b) = a"
    using assms(1) by (subst takeWhile_append2) auto
  moreover have "takeWhile (\<lambda>x. x \<noteq> CHR ''-'') (c @ ''-'' @ d) = c"
    using assms(2) by (subst takeWhile_append2) auto
  ultimately have "a = c" using assms(3) by simp
  then show ?thesis using assms(3) by simp
qed

lemma hyphen_free_unambiguous:
  assumes "\<forall>a\<in>set ids. CHR ''-'' \<notin> set a"
  shows "keysUnambiguous ids"
  unfolding keysUnambiguous_def
proof (intro ballI impI)
  fix a b c d
  assume "a \<in> set ids" "c \<in> set ids" and eq: "a @ ''-'' @ b = c @ ''-'' @ d"
  then have "CHR ''-'' \<notin> set a" "CHR ''-'' \<notin> set c" using assms by simp_all
  then show "a = c \<and> b = d" using eq by (rule hyphen_split)
qed

lemma effectiveNeighbors_clamped:
  assumes "2 \<le> length nodes"
  shows "1 \<le> effectiveNeighbors nodes k \<and> effectiveNeighbors nodes k \<le> int (length nodes) - 1"
  using assms by (simp add: effectiveNeighbors_def)

lemma effectiveNeighbors_all:
  assumes "2 \<le> length nodes" "int (length nodes) - 1 \<le> k"
  shows "effectiveNeighbors nodes k = int (length nodes) - 1"
  using assms by (simp add: effectiveNeighbors_def)

lemma id_inj:
  assumes "distinct (map node_id nodes)" "i < length nodes" "j < length nodes"
    "node_id (nodes ! i) = node_id (nodes ! j)"
  shows "i = j"
proof -
  have "(map node_id nodes ! i = map node_id nodes ! j) = (i = j)"
    by (rule nth_eq_iff_index_eq) (use assms in simp_all)
  then show ?thesis using assms by simp
qed

lemma find_distinct:
  assumes "distinct (map node_id nodes)" "j < length nodes"
  shows "find (\<lambda>x. node_id x = node_id (nodes ! j)) nodes = Some (nodes ! j)"
proof -
  have "\<forall>i<j. node_id (nodes ! i) \<noteq> node_id (nodes ! j)"
  proof (intro allI impI notI)
    fix i assume i: "i < j" and eq: "node_id (nodes ! i) = node_id (nodes ! j)"
    have "i < length nodes" using i assms(2) by simp
    from id_inj [OF assms(1) this assms(2) eq] i show False by simp
  qed
  then show ?thesis using assms(2) by (auto simp add: find_Some_iff)
qed

lemma length_others: "i < n \<Longrightarrow> length (filter (\<lambda>j. i \<noteq> j) [0..<n]) = n - 1"
proof -
  assume i: "i < n"
  have "length (filter (\<lambda>j. i \<noteq> j) [0..<n]) = card ({j. i \<noteq> j} \<inter> set [0..<n])"
    by (rule distinct_length_filter) simp
  also have "{j. i \<noteq> j} \<inter> set [0..<n] = {0..<n} - {i}" by auto
  also have "card ({0..<n} - {i}) = n - 1" using i by simp
  finally show ?thesis .
qed

lemma set_neighborsOf_all:
  assumes "i < length nodes"
  shows "nb_id ` set (neighborsOf nodes (int (length nodes) - 1) i) =
           {node_id (nodes ! j) | j. j < length nodes \<and> j \<noteq> i}"
proof -
  let ?xs = "map (\<lambda>nodeB. \<lparr>nb_id = node_id nodeB, nb_dist = distanceTo (pos (nodes ! i)) (pos nodeB)\<rparr>)
           (map (\<lambda>j. nodes ! j) (filter (\<lambda>j. i \<noteq> j) [0..<length nodes]))"
  have len: "length (sort_key nb_dist ?xs) = length nodes - 1"
    using length_others [OF assms] by simp
  have "nat (int (length nodes) - 1) = length nodes - 1" by simp
  then have "neighborsOf nodes (int (length nodes) - 1) i = sort_key nb_dist ?xs"
    unfolding neighborsOf_def using len by simp
  then have "set (neighborsOf nodes (int (length nodes) - 1) i) = set ?xs" by simp
  then show ?thesis by (auto simp add: image_iff)
qed

lemma set_linksOf_distinct:
  assumes d: "distinct (map node_id nodes)"
    and ns: "\<forall>n\<in>set ns. \<exists>j<length nodes. nb_id n = node_id (nodes ! j)"
  shows "set (linksOf nodes a ns) = {(a, nodes ! j) | j. j < length nodes \<and> node_id (nodes ! j) \<in> nb_id ` set ns}"
  using ns
proof (induction ns)
  case Nil
  then show ?case by (simp add: linksOf_def)
next
  case (Cons n ns)
  obtain j where j: "j < length nodes" "nb_id n = node_id (nodes ! j)" using Cons.prems by auto
  have f: "find (\<lambda>x. node_id x = nb_id n) nodes = Some (nodes ! j)"
    using find_distinct [OF d j(1)] j(2) by simp
  have step: "linksOf nodes a (n # ns) = (a, nodes ! j) # linksOf nodes a ns"
    using f by (simp add: linksOf_def)
  have inj: "\<And>j'. j' < length nodes \<Longrightarrow> node_id (nodes ! j') = node_id (nodes ! j) \<Longrightarrow> j' = j"
    using id_inj [OF d _ j(1)] by blast
  have IH: "set (linksOf nodes a ns) = {(a, nodes ! j) | j. j < length nodes \<and> node_id (nodes ! j) \<in> nb_id ` set ns}"
    using Cons by simp
  show ?case unfolding step using IH j inj by auto
qed

lemma set_allLinks_all:
  assumes d: "distinct (map node_id nodes)"
  shows "set (allLinks nodes (int (length nodes) - 1) [0..<length nodes]) =
           {(nodes ! i, nodes ! j) | i j. i < length nodes \<and> j < length nodes \<and> i \<noteq> j}"
proof -
  have one: "set (linksOf nodes (nodes ! i) (neighborsOf nodes (int (length nodes) - 1) i)) =
      {(nodes ! i, nodes ! j) | j. j < length nodes \<and> j \<noteq> i}" if i: "i < length nodes" for i
  proof -
    have ns: "\<forall>n\<in>set (neighborsOf nodes (int (length nodes) - 1) i). \<exists>j<length nodes. nb_id n = node_id (nodes ! j)"
      using neighborsOf_ids by blast
    have inj: "\<And>j j'. j < length nodes \<Longrightarrow> j' < length nodes \<Longrightarrow> node_id (nodes ! j') = node_id (nodes ! j) \<Longrightarrow> j' = j"
      using id_inj [OF d] by blast
    show ?thesis
      unfolding set_linksOf_distinct [OF d ns] set_neighborsOf_all [OF i]
      using inj by auto
  qed
  have "set (allLinks nodes (int (length nodes) - 1) [0..<length nodes]) =
     (\<Union>i\<in>{0..<length nodes}. set (linksOf nodes (nodes ! i) (neighborsOf nodes (int (length nodes) - 1) i)))"
    by (simp add: allLinks_def)
  also have "\<dots> = (\<Union>i\<in>{0..<length nodes}. {(nodes ! i, nodes ! j) | j. j < length nodes \<and> j \<noteq> i})"
    using one by simp
  also have "\<dots> = {(nodes ! i, nodes ! j) | i j. i < length nodes \<and> j < length nodes \<and> i \<noteq> j}"
    by fastforce
  finally show ?thesis .
qed

lemma filter_unique:
  assumes "distinct (map f xs)" "\<forall>x\<in>set xs. P x \<longrightarrow> f x = k"
  shows "length (filter P xs) \<le> 1"
  using assms
proof (induction xs)
  case Nil
  then show ?case by simp
next
  case (Cons x xs)
  show ?case
  proof (cases "P x")
    case False
    then show ?thesis using Cons by simp
  next
    case True
    then have "f x = k" using Cons.prems by simp
    then have "\<forall>y\<in>set xs. \<not> P y" using Cons.prems by (metis distinct.simps(2) image_eqI list.set_intros(2) list.simps(9) set_map)
    then have "filter P xs = []" by (simp add: filter_empty_conv)
    then show ?thesis using True by simp
  qed
qed

lemma knn_complete:
  assumes n: "2 \<le> length nodes" and d: "distinct (map node_id nodes)"
    and u: "keysUnambiguous (map node_id nodes)"
    and k: "int (length nodes) - 1 \<le> connectionNeighbors settings"
  shows "(\<forall>i<length nodes. \<forall>j<length nodes. i \<noteq> j \<longrightarrow>
            length (filter (\<lambda>e. joins e (node_id (nodes ! i)) (node_id (nodes ! j))) (knnEdges nodes settings)) = 1)
       \<and> (\<forall>e\<in>set (knnEdges nodes settings). \<exists>i<length nodes. \<exists>j<length nodes. i \<noteq> j \<and>
            joins e (node_id (nodes ! i)) (node_id (nodes ! j)))"
proof -
  let ?style = "connectionStyle settings"
  let ?L = "allLinks nodes (int (length nodes) - 1) [0..<length nodes]"
  let ?st = "fold (\<lambda>l. pushUnique (linkKey l) (linkItem ?style l)) ?L ({}, [])"
  let ?es = "snd ?st"
  have es: "knnEdges nodes settings = ?es"
    by (simp add: knnEdges_def effectiveNeighbors_all [OF n k])
  have L: "set ?L = {(nodes ! i, nodes ! j) | i j. i < length nodes \<and> j < length nodes \<and> i \<noteq> j}"
    by (rule set_allLinks_all [OF d])
  have ks: "fst ?st = edgeKeyOf ` set ?es"
    by (rule fold_pushUnique_inv) (simp_all add: edgeKeyOf_linkItem)
  have dk: "distinct (map edgeKeyOf ?es)"
    by (rule fold_pushUnique_distinct) (simp_all add: edgeKeyOf_linkItem)
  have keys: "fst ?st = linkKey ` set ?L" by (simp add: fold_pushUnique_keys)
  have items: "set ?es \<subseteq> linkItem ?style ` set ?L"
    using fold_pushUnique_items [where key = linkKey and item = "linkItem ?style"
        and ps = ?L and st = "({}, [])"] by simp
  have from_link: "\<exists>i<length nodes. \<exists>j<length nodes. i \<noteq> j \<and>
      nodeAId e = fst (sortedPair (node_id (nodes ! i)) (node_id (nodes ! j))) \<and>
      nodeBId e = snd (sortedPair (node_id (nodes ! i)) (node_id (nodes ! j)))" if e: "e \<in> set ?es" for e
  proof -
    obtain l where l: "l \<in> set ?L" "e = linkItem ?style l" using items e by blast
    then obtain i j where ij: "i < length nodes" "j < length nodes" "i \<noteq> j" "l = (nodes ! i, nodes ! j)"
      using L by auto
    have "nodeAId e = fst (sortedPair (node_id (nodes ! i)) (node_id (nodes ! j)))"
      "nodeBId e = snd (sortedPair (node_id (nodes ! i)) (node_id (nodes ! j)))"
      using ij(4) l(2) by (simp_all add: linkItem_def)
    then show ?thesis using ij(1,2,3) by blast
  qed
  have ids': "\<forall>e\<in>set ?es. nodeAId e \<in> set (map node_id nodes) \<and> nodeBId e \<in> set (map node_id nodes)"
  proof
    fix e assume "e \<in> set ?es"
    from from_link [OF this] obtain i j where ij: "i < length nodes" "j < length nodes"
      "nodeAId e = fst (sortedPair (node_id (nodes ! i)) (node_id (nodes ! j)))"
      "nodeBId e = snd (sortedPair (node_id (nodes ! i)) (node_id (nodes ! j)))" by blast
    have "node_id (nodes ! i) \<in> set (map node_id nodes)" "node_id (nodes ! j) \<in> set (map node_id nodes)"
      using ij(1,2) by simp_all
    then show "nodeAId e \<in> set (map node_id nodes) \<and> nodeBId e \<in> set (map node_id nodes)"
      unfolding ij(3,4) sortedPair_def by (simp only: fst_conv snd_conv split: if_split) simp
  qed
  have neq: "node_id (nodes ! i) \<noteq> node_id (nodes ! j)" if "i < length nodes" "j < length nodes" "i \<noteq> j" for i j
    using id_inj [OF d that(1,2)] that(3) by blast
  have part1: "length (filter (\<lambda>e. joins e (node_id (nodes ! i)) (node_id (nodes ! j))) ?es) = 1"
    if ij: "i < length nodes" "j < length nodes" "i \<noteq> j" for i j
  proof -
    let ?x = "node_id (nodes ! i)" and ?y = "node_id (nodes ! j)"
    let ?sp = "sortedPair ?x ?y"
    have "(nodes ! i, nodes ! j) \<in> set ?L" using ij L by blast
    then have "linkKey (nodes ! i, nodes ! j) \<in> fst ?st" using keys by blast
    then have "fst ?sp @ ''-'' @ snd ?sp \<in> fst ?st" by (simp add: linkKey_def)
    moreover have "?x \<in> set (map node_id nodes)" "?y \<in> set (map node_id nodes)"
      using ij by simp_all
    then have "fst ?sp \<in> set (map node_id nodes)" "snd ?sp \<in> set (map node_id nodes)"
      by (simp_all add: sortedPair_def)
    ultimately obtain e where e: "e \<in> set ?es" "nodeAId e = fst ?sp" "nodeBId e = snd ?sp"
      using key_gives_edge [OF u ks ids'] by blast
    have "joins e ?x ?y" unfolding joins_def e(2,3) sortedPair_def by simp
    then have "e \<in> set (filter (\<lambda>e. joins e ?x ?y) ?es)" using e(1) by simp
    then have "filter (\<lambda>e. joins e ?x ?y) ?es \<noteq> []" by (rule_tac notI) simp
    then have ge: "1 \<le> length (filter (\<lambda>e. joins e ?x ?y) ?es)"
      by (simp add: Suc_le_eq)
    have same: "\<forall>e\<in>set ?es. joins e ?x ?y \<longrightarrow> edgeKeyOf e = fst ?sp @ ''-'' @ snd ?sp"
    proof (intro ballI impI)
      fix e' assume e': "e' \<in> set ?es" "joins e' ?x ?y"
      obtain i' j' where ij': "nodeAId e' = fst (sortedPair (node_id (nodes ! i')) (node_id (nodes ! j')))"
        "nodeBId e' = snd (sortedPair (node_id (nodes ! i')) (node_id (nodes ! j')))"
        using from_link [OF e'(1)] by blast
      have le: "nodeAId e' \<le> nodeBId e'" unfolding ij' sortedPair_def by auto
      have "nodeAId e' = fst ?sp \<and> nodeBId e' = snd ?sp"
        using e'(2) le neq [OF ij] unfolding joins_def sortedPair_def by auto
      then show "edgeKeyOf e' = fst ?sp @ ''-'' @ snd ?sp" by (simp add: edgeKeyOf_def)
    qed
    have "length (filter (\<lambda>e. joins e ?x ?y) ?es) \<le> 1"
      by (rule filter_unique [OF dk same])
    with ge show ?thesis by simp
  qed
  have part2: "\<exists>i<length nodes. \<exists>j<length nodes. i \<noteq> j \<and> joins e (node_id (nodes ! i)) (node_id (nodes ! j))"
    if e: "e \<in> set ?es" for e
  proof -
    obtain i j where ij: "i < length nodes" "j < length nodes" "i \<noteq> j"
      "nodeAId e = fst (sortedPair (node_id (nodes ! i)) (node_id (nodes ! j)))"
      "nodeBId e = snd (sortedPair (node_id (nodes ! i)) (node_id (nodes ! j)))"
      using from_link [OF e] by blast
    have "joins e (node_id (nodes ! i)) (node_id (nodes ! j))"
      unfolding joins_def ij(4,5) sortedPair_def by simp
    then show ?thesis using ij(1,2,3) by blast
  qed
  show ?thesis unfolding es
  proof (intro conjI allI impI ballI)
    fix i j assume "i < length nodes" "j < length nodes" "i \<noteq> j"
    then show "length (filter (\<lambda>e. joins e (node_id (nodes ! i)) (node_id (nodes ! j))) ?es) = 1"
      by (rule part1)
  next
    fix e assume "e \<in> set ?es"
    then show "\<exists>i<length nodes. \<exists>j<length nodes. i \<noteq> j \<and> joins e (node_id (nodes ! i)) (node_id (nodes ! j))"
      by (rule part2)
  qed
qed

section \<open>Hull mode: the side test does not depend on the order of a triple\<close>

lemma hullFace_nodeFace: "hullFace nodes style i j k = nodeFace style (nodes ! i) (nodes ! j) (nodes ! k)"
  by (simp add: hullFace_def nodeFace_def Let_def)

lemma hullEdge_nodeEdge: "hullEdge nodes style a b = nodeEdge style (nodes ! a) (nodes ! b)"
  by (simp add: hullEdge_def nodeEdge_def)

lemma getEdgeControlPoint_commute: "getEdgeControlPoint p q style = getEdgeControlPoint q p style"
  by (simp add: getEdgeControlPoint_def addVectors_def add.commute)

lemma canonEdge_swap: "canonEdge (nodeEdge style y x) = canonEdge (nodeEdge style x y)"
  by (simp add: canonEdge_def nodeEdge_def getEdgeControlPoint_commute [of "pos y" "pos x"] insert_commute)

lemma canonFace_swap12: "canonFace (nodeFace style y x z) = canonFace (nodeFace style x y z)"
  by (simp add: canonFace_def faceCorners_def faceSides_def nodeFace_def
        getEdgeControlPoint_commute [of "pos y" "pos x"] getEdgeControlPoint_commute [of "pos z" "pos y"]
        getEdgeControlPoint_commute [of "pos x" "pos z"] insert_commute)

lemma canonFace_swap23: "canonFace (nodeFace style x z y) = canonFace (nodeFace style x y z)"
  by (simp add: canonFace_def faceCorners_def faceSides_def nodeFace_def
        getEdgeControlPoint_commute [of "pos y" "pos x"] getEdgeControlPoint_commute [of "pos z" "pos y"]
        getEdgeControlPoint_commute [of "pos x" "pos z"] insert_commute)

lemma cross_swap_base:
  "crossVectors (subVectors px py) (subVectors pz py) =
     multiplyScalar (crossVectors (subVectors py px) (subVectors pz px)) (- 1)"
  by (simp add: crossVectors_def subVectors_def multiplyScalar_def algebra_simps)

lemma cross_swap_args: "crossVectors b a = multiplyScalar (crossVectors a b) (- 1)"
  by (simp add: crossVectors_def multiplyScalar_def algebra_simps)

lemma vlength_neg: "vlength (multiplyScalar v (- 1)) = vlength v"
  by (simp add: vlength_def multiplyScalar_def)

lemma normalizeV_neg: "normalizeV (multiplyScalar v (- 1)) = multiplyScalar (normalizeV v) (- 1)"
  by (simp add: normalizeV_def vlength_neg) (simp add: multiplyScalar_def)

lemma dot_neg: "dot (multiplyScalar n (- 1)) w = - dot n w"
  by (simp add: dot_def multiplyScalar_def)

lemma dot_scaled: "dot (multiplyScalar n c) w = c * dot n w"
  by (simp add: dot_def multiplyScalar_def algebra_simps)

lemma dot_cross_left: "dot (crossVectors a b) a = 0"
  by (simp add: dot_def crossVectors_def algebra_simps)

lemma dot_normal_left: "dot (normalizeV (crossVectors a b)) a = 0"
  by (simp add: normalizeV_def dot_scaled dot_cross_left)

lemma dot_rebase:
  "dot n (subVectors pm py) = dot n (subVectors pm px) - dot n (subVectors py px)"
  by (simp add: dot_def subVectors_def algebra_simps)

lemma planeDistance_swap23: "planeDistance x z y m = - planeDistance x y z m"
  unfolding planeDistance_def
  by (subst cross_swap_args) (simp add: normalizeV_neg dot_neg)

lemma planeDistance_swap12: "planeDistance y x z m = - planeDistance x y z m"
proof -
  let ?N = "normalizeV (crossVectors (subVectors (pos y) (pos x)) (subVectors (pos z) (pos x)))"
  have "planeDistance y x z m = - dot ?N (subVectors (pos m) (pos y))"
    unfolding planeDistance_def by (subst cross_swap_base) (simp add: normalizeV_neg dot_neg)
  also have "dot ?N (subVectors (pos m) (pos y)) =
      dot ?N (subVectors (pos m) (pos x)) - dot ?N (subVectors (pos y) (pos x))"
    by (rule dot_rebase)
  also have "dot ?N (subVectors (pos y) (pos x)) = 0" by (rule dot_normal_left)
  finally show ?thesis by (simp add: planeDistance_def)
qed

lemma sidesAgree_neg:
  assumes "\<And>m. planeDistance x' y' z' m = - planeDistance x y z m"
  shows "sidesAgree x' y' z' others = sidesAgree x y z others"
  unfolding sidesAgree_def assms by (simp add: sgn_minus)

lemma sidesAgree_swap12: "sidesAgree y x z others = sidesAgree x y z others"
  by (rule sidesAgree_neg) (rule planeDistance_swap12)

lemma sidesAgree_swap23: "sidesAgree x z y others = sidesAgree x y z others"
  by (rule sidesAgree_neg) (rule planeDistance_swap23)

section \<open>Hull mode with the computed number as a parameter\<close>

lemma fold_hullTripleWith:
  "fold (hullTripleWith planeDot eps nodes style) ts st =
     (fst st @ facesOf (isFaceWith planeDot eps nodes) nodes style ts,
      fold (addHullEdge nodes style) (pairsOf (isFaceWith planeDot eps nodes) ts) (snd st))"
  by (induction ts arbitrary: st) (auto simp add: hullTripleWith_def facesOf_def pairsOf_def)

lemma faces_computeConvexHullWith:
  "faces (computeConvexHullWith planeDot eps nodes style) =
     (if length nodes < 4 then []
      else facesOf (isFaceWith planeDot eps nodes) nodes style (triples (length nodes)))"
  by (simp add: computeConvexHullWith_def Let_def fold_hullTripleWith)

lemma edges_computeConvexHullWith:
  "edges (computeConvexHullWith planeDot eps nodes style) =
     (if length nodes < 4 then []
      else snd (fold (\<lambda>p. pushUnique (hullKey nodes p) (hullItem nodes style p))
                (pairsOf (isFaceWith planeDot eps nodes) (triples (length nodes))) ({}, [])))"
  by (simp add: computeConvexHullWith_def Let_def fold_hullTripleWith addHullEdge_pushUnique)

lemma set_pairsOf:
  "set (pairsOf test ts) =
     {p. \<exists>i j k. (i, j, k) \<in> set ts \<and> test i j k \<and> (p = (i, j) \<or> p = (j, k) \<or> p = (k, i))}"
  by (auto simp add: pairsOf_def)

lemma set_facesOf:
  "set (facesOf test nodes style ts) =
     {hullFace nodes style i j k | i j k. (i, j, k) \<in> set ts \<and> test i j k}"
  by (force simp add: facesOf_def)

lemma sideScan_exact:
  "sideScan nodes (hullNormal nodes i j k) (pos (nodes ! i)) i j k side ms =
     sideScanWith exactPlaneDot (1 / 10000) nodes i j k side ms"
  by (induction ms arbitrary: side) (simp_all add: exactPlaneDot_def hullNormal_def Let_def)

lemma isFace_exact: "isFace nodes i j k = isFaceWith exactPlaneDot (1 / 10000) nodes i j k"
  by (simp add: isFace_def isFaceWith_def sideScan_exact)

lemma hullTriple_exact: "hullTriple nodes style = hullTripleWith exactPlaneDot (1 / 10000) nodes style"
  by (simp add: fun_eq_iff hullTriple_def hullTripleWith_def isFace_exact)

lemma computeConvexHull_exact:
  "computeConvexHull nodes style = computeConvexHullWith exactPlaneDot (1 / 10000) nodes style"
  unfolding computeConvexHull_def computeConvexHullWith_def hullTriple_exact ..

lemma sidesAgree_exact: "sidesAgree x y z others = sideTest exactPlaneDot (1 / 10000) x y z others"
  by (simp add: sidesAgree_def sideTest_def planeDistance_def exactPlaneDot_def Let_def)

lemma exact_orderIndependent: "orderIndependent exactPlaneDot (1 / 10000) S"
  unfolding orderIndependent_def sidesAgree_exact [symmetric]
  by (simp add: sidesAgree_swap12 sidesAgree_swap23)

section \<open>Hull mode: the side test as a property of sets\<close>

lemma agree_insert_sig:
  assumes "sig m"
  shows "(\<forall>a\<in>insert m R. \<forall>b\<in>insert m R. sig a \<and> sig b \<longrightarrow> sg a = sg b) =
         ((\<forall>a\<in>R. \<forall>b\<in>R. sig a \<and> sig b \<longrightarrow> sg a = sg b) \<and> (\<forall>a\<in>R. sig a \<longrightarrow> sg a = sg m))"
proof
  assume L: "\<forall>a\<in>insert m R. \<forall>b\<in>insert m R. sig a \<and> sig b \<longrightarrow> sg a = sg b"
  show "(\<forall>a\<in>R. \<forall>b\<in>R. sig a \<and> sig b \<longrightarrow> sg a = sg b) \<and> (\<forall>a\<in>R. sig a \<longrightarrow> sg a = sg m)"
    using L assms by blast
next
  assume R: "(\<forall>a\<in>R. \<forall>b\<in>R. sig a \<and> sig b \<longrightarrow> sg a = sg b) \<and> (\<forall>a\<in>R. sig a \<longrightarrow> sg a = sg m)"
  show "\<forall>a\<in>insert m R. \<forall>b\<in>insert m R. sig a \<and> sig b \<longrightarrow> sg a = sg b"
  proof (intro ballI impI)
    fix a b assume ab: "a \<in> insert m R" "b \<in> insert m R" "sig a \<and> sig b"
    have "sg a = sg m" using ab(1,3) R by blast
    moreover have "sg b = sg m" using ab(2,3) R by blast
    ultimately show "sg a = sg b" by simp
  qed
qed

lemma agree_insert_nosig:
  assumes "\<not> sig m"
  shows "(\<forall>a\<in>insert m R. \<forall>b\<in>insert m R. sig a \<and> sig b \<longrightarrow> sg a = sg b) =
         (\<forall>a\<in>R. \<forall>b\<in>R. sig a \<and> sig b \<longrightarrow> sg a = sg b)"
  using assms by blast

lemma sideScanWith_char:
  assumes eps: "0 \<le> eps"
  shows "sideScanWith planeDot eps nodes i j k side ms =
     ((\<forall>m\<in>set ms - {i, j, k}.
         \<bar>planeDot (pos (nodes ! i)) (pos (nodes ! j)) (pos (nodes ! k)) (pos (nodes ! m))\<bar> > eps \<longrightarrow>
         side = 0 \<or> sgn (planeDot (pos (nodes ! i)) (pos (nodes ! j)) (pos (nodes ! k)) (pos (nodes ! m))) = side)
      \<and> (\<forall>m\<in>set ms - {i, j, k}. \<forall>m'\<in>set ms - {i, j, k}.
         \<bar>planeDot (pos (nodes ! i)) (pos (nodes ! j)) (pos (nodes ! k)) (pos (nodes ! m))\<bar> > eps
         \<and> \<bar>planeDot (pos (nodes ! i)) (pos (nodes ! j)) (pos (nodes ! k)) (pos (nodes ! m'))\<bar> > eps \<longrightarrow>
         sgn (planeDot (pos (nodes ! i)) (pos (nodes ! j)) (pos (nodes ! k)) (pos (nodes ! m))) =
         sgn (planeDot (pos (nodes ! i)) (pos (nodes ! j)) (pos (nodes ! k)) (pos (nodes ! m')))))"
proof -
  define sig where "sig = (\<lambda>m. \<bar>planeDot (pos (nodes ! i)) (pos (nodes ! j)) (pos (nodes ! k)) (pos (nodes ! m))\<bar> > eps)"
  define sg where "sg = (\<lambda>m. sgn (planeDot (pos (nodes ! i)) (pos (nodes ! j)) (pos (nodes ! k)) (pos (nodes ! m))))"
  have nz: "sg m \<noteq> 0" if "sig m" for m
    using that eps by (auto simp add: sig_def sg_def sgn_zero_iff)
  have step: "sideScanWith planeDot eps nodes i j k s (m # ms) =
      (if m = i \<or> m = j \<or> m = k then sideScanWith planeDot eps nodes i j k s ms
       else if sig m then
          (if s = 0 then sideScanWith planeDot eps nodes i j k (sg m) ms
           else if s \<noteq> sg m then False
           else sideScanWith planeDot eps nodes i j k s ms)
       else sideScanWith planeDot eps nodes i j k s ms)" for s m ms
    by (simp add: sig_def sg_def Let_def)
  have main: "sideScanWith planeDot eps nodes i j k s ms =
     ((\<forall>a\<in>set ms - {i, j, k}. sig a \<longrightarrow> s = 0 \<or> sg a = s)
      \<and> (\<forall>a\<in>set ms - {i, j, k}. \<forall>b\<in>set ms - {i, j, k}. sig a \<and> sig b \<longrightarrow> sg a = sg b))" for s
  proof (induction ms arbitrary: s)
    case Nil
    then show ?case by simp
  next
    case (Cons m ms)
    let ?R = "set ms - {i, j, k}"
    let ?pair = "\<lambda>R. \<forall>a\<in>R. \<forall>b\<in>R. sig a \<and> sig b \<longrightarrow> sg a = sg b"
    show ?case
    proof (cases "m = i \<or> m = j \<or> m = k")
      case True
      then have "set (m # ms) - {i, j, k} = ?R" by auto
      then show ?thesis using True Cons.IH [of s] by (simp only: step if_False if_True simp_thms)
    next
      case False
      then have S: "set (m # ms) - {i, j, k} = insert m ?R" by auto
      show ?thesis
      proof (cases "sig m")
        case nosig: False
        have "sideScanWith planeDot eps nodes i j k s (m # ms) = sideScanWith planeDot eps nodes i j k s ms"
          using False nosig by (simp only: step if_False if_True simp_thms)
        moreover have "?pair (insert m ?R) = ?pair ?R"
          by (rule agree_insert_nosig [where sig = sig and sg = sg and m = m and R = "?R", OF nosig])
        moreover have "(\<forall>a\<in>insert m ?R. sig a \<longrightarrow> s = 0 \<or> sg a = s) =
            (\<forall>a\<in>?R. sig a \<longrightarrow> s = 0 \<or> sg a = s)"
          using nosig by blast
        ultimately show ?thesis unfolding S using Cons.IH [of s] by (simp only:)
      next
        case sig: True
        have pr: "?pair (insert m ?R) = (?pair ?R \<and> (\<forall>a\<in>?R. sig a \<longrightarrow> sg a = sg m))"
          by (rule agree_insert_sig [where sig = sig and sg = sg and m = m and R = "?R", OF sig])
        show ?thesis
        proof (cases "s = 0")
          case True
          have "sideScanWith planeDot eps nodes i j k s (m # ms) = sideScanWith planeDot eps nodes i j k (sg m) ms"
            using False sig True by (simp only: step if_False if_True simp_thms)
          also have "\<dots> = ((\<forall>a\<in>?R. sig a \<longrightarrow> sg m = 0 \<or> sg a = sg m) \<and> ?pair ?R)"
            by (rule Cons.IH)
          also have "\<dots> = ((\<forall>a\<in>?R. sig a \<longrightarrow> sg a = sg m) \<and> ?pair ?R)"
            using nz [OF sig] by blast
          also have "\<dots> = ((\<forall>a\<in>insert m ?R. sig a \<longrightarrow> s = 0 \<or> sg a = s) \<and> ?pair (insert m ?R))"
            unfolding pr using True by blast
          finally show ?thesis unfolding S .
        next
          case nonzero: False
          show ?thesis
          proof (cases "s = sg m")
            case True
            have "sideScanWith planeDot eps nodes i j k s (m # ms) = sideScanWith planeDot eps nodes i j k s ms"
              using False sig nonzero True by (simp only: step if_False if_True simp_thms)
            also have "\<dots> = ((\<forall>a\<in>?R. sig a \<longrightarrow> s = 0 \<or> sg a = s) \<and> ?pair ?R)"
              by (rule Cons.IH)
            also have "\<dots> = ((\<forall>a\<in>insert m ?R. sig a \<longrightarrow> s = 0 \<or> sg a = s) \<and> ?pair (insert m ?R))"
              unfolding pr using True nonzero by blast
            finally show ?thesis unfolding S .
          next
            case differ: False
            have "sideScanWith planeDot eps nodes i j k s (m # ms) = False"
              using False sig nonzero differ by (simp only: step if_False if_True simp_thms)
            moreover have "\<not> (\<forall>a\<in>insert m ?R. sig a \<longrightarrow> s = 0 \<or> sg a = s)"
              using sig nonzero differ by blast
            ultimately show ?thesis unfolding S by blast
          qed
        qed
      qed
    qed
  qed
  show ?thesis using main [of side] unfolding sig_def sg_def .
qed

lemma isFaceWith_sideTest:
  assumes "0 \<le> eps"
  shows "isFaceWith planeDot eps nodes i j k =
     sideTest planeDot eps (nodes ! i) (nodes ! j) (nodes ! k) ((!) nodes ` ({0..<length nodes} - {i, j, k}))"
  unfolding isFaceWith_def sideScanWith_char [OF assms] sideTest_def
  by simp

lemma isFace_sidesAgree:
  "isFace nodes i j k =
     sidesAgree (nodes ! i) (nodes ! j) (nodes ! k) ((!) nodes ` ({0..<length nodes} - {i, j, k}))"
  by (simp add: isFace_exact isFaceWith_sideTest sidesAgree_exact)

lemma others_image:
  assumes d: "distinct nodes" and i: "i < length nodes" "j < length nodes" "k < length nodes"
  shows "(!) nodes ` ({0..<length nodes} - {i, j, k}) = set nodes - {nodes ! i, nodes ! j, nodes ! k}"
proof -
  have inj: "inj_on ((!) nodes) {0..<length nodes}"
    using d by (simp add: inj_on_nth)
  have "(!) nodes ` ({0..<length nodes} - {i, j, k}) =
      (!) nodes ` {0..<length nodes} - (!) nodes ` {i, j, k}"
    by (rule inj_on_image_set_diff [OF inj]) (use i in auto)
  also have "(!) nodes ` {0..<length nodes} = set nodes"
    by (simp add: set_conv_nth) (auto simp add: image_def)
  finally show ?thesis by simp
qed

lemma isFaceWith_set:
  assumes e: "0 \<le> eps" and d: "distinct nodes" and i: "i < length nodes" "j < length nodes" "k < length nodes"
  shows "isFaceWith planeDot eps nodes i j k =
     sideTest planeDot eps (nodes ! i) (nodes ! j) (nodes ! k) (set nodes - {nodes ! i, nodes ! j, nodes ! k})"
  by (simp add: isFaceWith_sideTest [OF e] others_image [OF d i])

section \<open>Hull mode: faces and edges as a function of the set of nodes\<close>

lemma perm3:
  assumes "{x', y', z'} = {x, y, z}" "x' \<noteq> y'" "y' \<noteq> z'" "x' \<noteq> z'"
  shows "(x' = x \<and> y' = y \<and> z' = z) \<or> (x' = x \<and> y' = z \<and> z' = y)
       \<or> (x' = y \<and> y' = x \<and> z' = z) \<or> (x' = y \<and> y' = z \<and> z' = x)
       \<or> (x' = z \<and> y' = x \<and> z' = y) \<or> (x' = z \<and> y' = y \<and> z' = x)"
proof -
  have "x' \<in> {x, y, z}" "y' \<in> {x, y, z}" "z' \<in> {x, y, z}" using assms(1) by blast+
  then have a: "x' = x \<or> x' = y \<or> x' = z" and b: "y' = x \<or> y' = y \<or> y' = z"
    and c: "z' = x \<or> z' = y \<or> z' = z" by blast+
  show ?thesis using a b c assms(2,3,4) by (elim disjE; simp)
qed

lemma sym3:
  assumes s12: "\<And>x y z. G y x z = G x y z" and s23: "\<And>x y z. G x z y = G x y z"
    and p: "(x' = x \<and> y' = y \<and> z' = z) \<or> (x' = x \<and> y' = z \<and> z' = y)
       \<or> (x' = y \<and> y' = x \<and> z' = z) \<or> (x' = y \<and> y' = z \<and> z' = x)
       \<or> (x' = z \<and> y' = x \<and> z' = y) \<or> (x' = z \<and> y' = y \<and> z' = x)"
  shows "G x' y' z' = G x y z"
proof -
  have c1: "G x z y = G x y z" by (rule s23)
  have c2: "G y x z = G x y z" by (rule s12)
  have "G y z x = G y x z" by (rule s23)
  also have "\<dots> = G x y z" by (rule s12)
  finally have c3: "G y z x = G x y z" .
  have "G z x y = G x z y" by (rule s12)
  also have "\<dots> = G x y z" by (rule s23)
  finally have c4: "G z x y = G x y z" .
  have "G z y x = G z x y" by (rule s23)
  also have "\<dots> = G x y z" by (rule c4)
  finally have c5: "G z y x = G x y z" .
  from p show ?thesis
  proof (elim disjE conjE)
    assume "x' = x" "y' = y" "z' = z"
    then show ?thesis by (simp only:)
  next
    assume "x' = x" "y' = z" "z' = y"
    then show ?thesis by (simp only: c1)
  next
    assume "x' = y" "y' = x" "z' = z"
    then show ?thesis by (simp only: c2)
  next
    assume "x' = y" "y' = z" "z' = x"
    then show ?thesis by (simp only: c3)
  next
    assume "x' = z" "y' = x" "z' = y"
    then show ?thesis by (simp only: c4)
  next
    assume "x' = z" "y' = y" "z' = x"
    then show ?thesis by (simp only: c5)
  qed
qed

lemma sideTest_perm:
  assumes H: "orderIndependent planeDot eps S"
    and mem: "x \<in> S" "y \<in> S" "z \<in> S" and ne: "x \<noteq> y" "y \<noteq> z" "x \<noteq> z"
    and p: "{x', y', z'} = {x, y, z}" "x' \<noteq> y'" "y' \<noteq> z'" "x' \<noteq> z'"
  shows "sideTest planeDot eps x' y' z' (S - {x, y, z}) = sideTest planeDot eps x y z (S - {x, y, z})"
proof -
  define G where "G = (\<lambda>a b c. a \<in> S \<and> b \<in> S \<and> c \<in> S \<and> a \<noteq> b \<and> b \<noteq> c \<and> a \<noteq> c \<longrightarrow>
      sideTest planeDot eps a b c (S - {a, b, c}))"
  have s12: "G b a c = G a b c" for a b c
  proof (cases "a \<in> S \<and> b \<in> S \<and> c \<in> S \<and> a \<noteq> b \<and> b \<noteq> c \<and> a \<noteq> c")
    case True
    then have "sideTest planeDot eps b a c (S - {a, b, c}) = sideTest planeDot eps a b c (S - {a, b, c})"
      using H unfolding orderIndependent_def by blast
    moreover have "S - {b, a, c} = S - {a, b, c}" by blast
    ultimately show ?thesis unfolding G_def using True by auto
  next
    case False
    then show ?thesis unfolding G_def by blast
  qed
  have s23: "G a c b = G a b c" for a b c
  proof (cases "a \<in> S \<and> b \<in> S \<and> c \<in> S \<and> a \<noteq> b \<and> b \<noteq> c \<and> a \<noteq> c")
    case True
    then have "sideTest planeDot eps a c b (S - {a, b, c}) = sideTest planeDot eps a b c (S - {a, b, c})"
      using H unfolding orderIndependent_def by blast
    moreover have "S - {a, c, b} = S - {a, b, c}" by blast
    ultimately show ?thesis unfolding G_def using True by auto
  next
    case False
    then show ?thesis unfolding G_def by blast
  qed
  have g: "G x' y' z' = G x y z"
    by (rule sym3 [where G = G and x = x and y = y and z = z and x' = x' and y' = y' and z' = z'])
       (rule s12, rule s23, rule perm3 [OF p])
  have "x' \<in> {x, y, z}" "y' \<in> {x, y, z}" "z' \<in> {x, y, z}" using p(1) by blast+
  then have mem': "x' \<in> S" "y' \<in> S" "z' \<in> S" using mem by blast+
  have a: "G x y z = sideTest planeDot eps x y z (S - {x, y, z})"
    unfolding G_def using mem ne by simp
  have b: "G x' y' z' = sideTest planeDot eps x' y' z' (S - {x', y', z'})"
    unfolding G_def using mem' p(2,3,4) by simp
  show ?thesis using g a b p(1) by simp
qed

lemma canonFace_perm:
  assumes "{x', y', z'} = {x, y, z}" "x' \<noteq> y'" "y' \<noteq> z'" "x' \<noteq> z'"
  shows "canonFace (nodeFace style x' y' z') = canonFace (nodeFace style x y z)"
  by (rule sym3 [where G = "\<lambda>x y z. canonFace (nodeFace style x y z)" and x = x and y = y and z = z
        and x' = x' and y' = y' and z' = z'])
     (rule canonFace_swap12, rule canonFace_swap23, rule perm3 [OF assms])

lemma sorted3:
  fixes a b c :: nat
  assumes "a \<noteq> b" "b \<noteq> c" "a \<noteq> c"
  shows "\<exists>i j k. i < j \<and> j < k \<and> {i, j, k} = {a, b, c}"
proof -
  consider "a < b \<and> b < c" | "a < c \<and> c < b" | "b < a \<and> a < c" | "b < c \<and> c < a"
    | "c < a \<and> a < b" | "c < b \<and> b < a"
    using assms by linarith
  then show ?thesis
  proof cases
    case 1
    then show ?thesis by blast
  next
    case 2
    have "{a, c, b} = {a, b, c}" by blast
    with 2 show ?thesis by blast
  next
    case 3
    have "{b, a, c} = {a, b, c}" by blast
    with 3 show ?thesis by blast
  next
    case 4
    have "{b, c, a} = {a, b, c}" by blast
    with 4 show ?thesis by blast
  next
    case 5
    have "{c, a, b} = {a, b, c}" by blast
    with 5 show ?thesis by blast
  next
    case 6
    have "{c, b, a} = {a, b, c}" by blast
    with 6 show ?thesis by blast
  qed
qed

lemma nth_distinct_neq:
  assumes "distinct nodes" "i < length nodes" "j < length nodes" "i \<noteq> j"
  shows "nodes ! i \<noteq> nodes ! j"
  using assms by (simp add: nth_eq_iff_index_eq)

lemma hull_faces_tested:
  assumes e: "0 \<le> eps" and H: "orderIndependent planeDot eps (set nodes)"
    and d: "distinct nodes" and n: "4 \<le> length nodes"
  shows "canonFace ` set (faces (computeConvexHullWith planeDot eps nodes style)) =
           testedFaceSet planeDot eps style (set nodes)"
proof (intro set_eqI iffI)
  fix c assume "c \<in> canonFace ` set (faces (computeConvexHullWith planeDot eps nodes style))"
  then obtain i j k where c: "c = canonFace (hullFace nodes style i j k)"
    and t: "(i, j, k) \<in> set (triples (length nodes))" and f: "isFaceWith planeDot eps nodes i j k"
    using n by (auto simp add: faces_computeConvexHullWith set_facesOf)
  have ord: "i < j" "j < k" "k < length nodes" using t by (simp_all add: set_triples)
  then have lt: "i < length nodes" "j < length nodes" by simp_all
  have ne: "nodes ! i \<noteq> nodes ! j" "nodes ! j \<noteq> nodes ! k" "nodes ! i \<noteq> nodes ! k"
    using nth_distinct_neq [OF d] ord lt by simp_all
  have "sideTest planeDot eps (nodes ! i) (nodes ! j) (nodes ! k) (set nodes - {nodes ! i, nodes ! j, nodes ! k})"
    using f isFaceWith_set [OF e d lt ord(3)] by simp
  then show "c \<in> testedFaceSet planeDot eps style (set nodes)"
    unfolding testedFaceSet_def c hullFace_nodeFace using ne lt ord(3) nth_mem by blast
next
  fix c assume "c \<in> testedFaceSet planeDot eps style (set nodes)"
  then obtain x y z where c: "c = canonFace (nodeFace style x y z)"
    and mem: "x \<in> set nodes" "y \<in> set nodes" "z \<in> set nodes"
    and ne: "x \<noteq> y" "y \<noteq> z" "x \<noteq> z"
    and ag: "sideTest planeDot eps x y z (set nodes - {x, y, z})"
    unfolding testedFaceSet_def by blast
  obtain a where ia: "a < length nodes" "nodes ! a = x"
    using mem(1) by (auto simp add: in_set_conv_nth)
  obtain b where ib: "b < length nodes" "nodes ! b = y"
    using mem(2) by (auto simp add: in_set_conv_nth)
  obtain e' where ie: "e' < length nodes" "nodes ! e' = z"
    using mem(3) by (auto simp add: in_set_conv_nth)
  note idx = ia ib ie
  have abe: "a \<noteq> b" "b \<noteq> e'" "a \<noteq> e'" using idx ne by blast+
  obtain i j k where ijk: "i < j" "j < k" "{i, j, k} = {a, b, e'}"
    using sorted3 [OF abe] by (elim exE conjE)
  have "i \<in> {a, b, e'}" "j \<in> {a, b, e'}" "k \<in> {a, b, e'}" using ijk(3) by blast+
  then have lt: "i < length nodes" "j < length nodes" "k < length nodes" using idx by blast+
  have "(!) nodes ` {i, j, k} = (!) nodes ` {a, b, e'}" by (simp only: ijk(3))
  then have sets: "{nodes ! i, nodes ! j, nodes ! k} = {x, y, z}"
    by (simp only: image_insert image_empty idx)
  have ne': "nodes ! i \<noteq> nodes ! j" "nodes ! j \<noteq> nodes ! k" "nodes ! i \<noteq> nodes ! k"
    using nth_distinct_neq [OF d] ijk(1,2) lt by simp_all
  have "sideTest planeDot eps (nodes ! i) (nodes ! j) (nodes ! k) (set nodes - {x, y, z}) =
      sideTest planeDot eps x y z (set nodes - {x, y, z})"
    by (rule sideTest_perm [OF H mem ne sets ne'])
  then have "isFaceWith planeDot eps nodes i j k" using ag isFaceWith_set [OF e d lt] sets by simp
  moreover have "(i, j, k) \<in> set (triples (length nodes))" using ijk(1,2) lt by (simp add: set_triples)
  ultimately have "hullFace nodes style i j k \<in> set (faces (computeConvexHullWith planeDot eps nodes style))"
    using n by (auto simp add: faces_computeConvexHullWith set_facesOf)
  moreover have "canonFace (hullFace nodes style i j k) = c"
    unfolding c hullFace_nodeFace by (rule canonFace_perm [OF sets ne'])
  ultimately show "c \<in> canonFace ` set (faces (computeConvexHullWith planeDot eps nodes style))" by blast
qed

lemma hullItem_nodeEdge:
  "hullItem nodes style p = nodeEdge style (nodes ! min (fst p) (snd p)) (nodes ! max (fst p) (snd p))"
  by (simp add: hullItem_def hullEdge_nodeEdge)

lemma items_of_pairs:
  assumes d: "distinct (map node_id nodes)" and u: "keysUnambiguous (map node_id nodes)"
    and inr: "\<And>p. p \<in> set ps \<Longrightarrow> fst p < length nodes \<and> snd p < length nodes"
  shows "set (snd (fold (\<lambda>p. pushUnique (hullKey nodes p) (hullItem nodes style p)) ps ({}, []))) =
           hullItem nodes style ` set ps"
proof -
  let ?n = "length nodes"
  let ?st = "fold (\<lambda>p. pushUnique (hullKey nodes p) (hullItem nodes style p)) ps ({}, [])"
  have ks: "fst ?st = edgeKeyOf ` set (snd ?st)"
    by (rule fold_pushUnique_inv) (simp_all add: edgeKeyOf_hullItem)
  have keys: "fst ?st = hullKey nodes ` set ps"
    by (simp add: fold_pushUnique_keys)
  have items: "set (snd ?st) \<subseteq> hullItem nodes style ` set ps"
    using fold_pushUnique_items [where key = "hullKey nodes" and item = "hullItem nodes style"
        and ps = ps and st = "({}, [])"] by simp
  have rev: "hullItem nodes style p \<in> set (snd ?st)" if p: "p \<in> set ps" for p
  proof -
    have "hullKey nodes p \<in> edgeKeyOf ` set (snd ?st)" using p keys ks by blast
    then obtain e where e: "e \<in> set (snd ?st)" "hullKey nodes p = edgeKeyOf e" by (rule imageE)
    have "e \<in> hullItem nodes style ` set ps" using e(1) items by (rule subsetD [rotated])
    then obtain p' where p': "p' \<in> set ps" "e = hullItem nodes style p'" by (rule imageE)
    have eq: "hullKey nodes p' = hullKey nodes p" using e(2) p'(2) by (simp add: edgeKeyOf_hullItem)
    let ?a = "min (fst p) (snd p)" and ?b = "max (fst p) (snd p)"
    let ?a' = "min (fst p') (snd p')" and ?b' = "max (fst p') (snd p')"
    have lt: "?a < ?n" "?b < ?n" "?a' < ?n" "?b' < ?n"
      using inr [OF p] inr [OF p'(1)] by (simp_all add: min_def max_def)
    have mem: "node_id (nodes ! ?a') \<in> set (map node_id nodes)" "node_id (nodes ! ?b') \<in> set (map node_id nodes)"
      "node_id (nodes ! ?a) \<in> set (map node_id nodes)" "node_id (nodes ! ?b) \<in> set (map node_id nodes)"
      using lt by simp_all
    have "node_id (nodes ! ?a') @ ''-'' @ node_id (nodes ! ?b') = node_id (nodes ! ?a) @ ''-'' @ node_id (nodes ! ?b)"
      using eq by (simp only: hullKey_def)
    from unambiguous_key [OF u mem this]
    have "node_id (nodes ! ?a') = node_id (nodes ! ?a)" "node_id (nodes ! ?b') = node_id (nodes ! ?b)"
      by simp_all
    then have "?a' = ?a" "?b' = ?b"
      using id_inj [OF d lt(3) lt(1)] id_inj [OF d lt(4) lt(2)] by simp_all
    then have "hullItem nodes style p' = hullItem nodes style p" by (simp only: hullItem_def)
    then show ?thesis using e(1) p'(2) by simp
  qed
  show ?thesis using items rev by blast
qed

lemma pair_of_sorted:
  fixes a b i j k :: nat
  assumes "a \<in> {i, j, k}" "b \<in> {i, j, k}" "a \<noteq> b" "i < j" "j < k"
  shows "(min a b = i \<and> max a b = j) \<or> (min a b = j \<and> max a b = k) \<or> (min a b = i \<and> max a b = k)"
proof -
  have a: "a = i \<or> a = j \<or> a = k" and b: "b = i \<or> b = j \<or> b = k" using assms(1,2) by simp_all
  show ?thesis using a b assms(3,4,5) by (elim disjE; simp add: min_def max_def)
qed

lemma testedEdgeSetI:
  assumes "x \<in> S" "y \<in> S" "z \<in> S" "x \<noteq> y" "y \<noteq> z" "x \<noteq> z"
    "sideTest planeDot eps x y z (S - {x, y, z})"
  shows "canonEdge (nodeEdge style x y) \<in> testedEdgeSet planeDot eps style S"
  unfolding testedEdgeSet_def using assms by blast

lemma hull_edges_tested:
  assumes e: "0 \<le> eps" and H: "orderIndependent planeDot eps (set nodes)"
    and d: "distinct (map node_id nodes)" and u: "keysUnambiguous (map node_id nodes)"
    and n: "4 \<le> length nodes"
  shows "canonEdge ` set (edges (computeConvexHullWith planeDot eps nodes style)) =
           testedEdgeSet planeDot eps style (set nodes)"
proof -
  let ?n = "length nodes"
  let ?ps = "pairsOf (isFaceWith planeDot eps nodes) (triples ?n)"
  let ?S = "set nodes"
  have dn: "distinct nodes" using d by (simp add: distinct_map)
  have inr: "fst p < ?n \<and> snd p < ?n" if "p \<in> set ?ps" for p
    using that by (auto simp add: set_pairsOf set_triples)
  have es: "set (edges (computeConvexHullWith planeDot eps nodes style)) = hullItem nodes style ` set ?ps"
    using n items_of_pairs [OF d u inr, of ?ps style] by (simp add: edges_computeConvexHullWith)
  show ?thesis
  proof (intro set_eqI iffI)
    fix c assume "c \<in> canonEdge ` set (edges (computeConvexHullWith planeDot eps nodes style))"
    then obtain p where p: "p \<in> set ?ps" "c = canonEdge (hullItem nodes style p)"
      unfolding es by blast
    then obtain i j k where t: "(i, j, k) \<in> set (triples ?n)" and f: "isFaceWith planeDot eps nodes i j k"
      and pc: "p = (i, j) \<or> p = (j, k) \<or> p = (k, i)"
      unfolding set_pairsOf by blast
    have ord: "i < j" "j < k" "k < ?n" using t by (simp_all add: set_triples)
    then have lt: "i < ?n" "j < ?n" by simp_all
    let ?x = "nodes ! i" and ?y = "nodes ! j" and ?z = "nodes ! k"
    have mem: "?x \<in> ?S" "?y \<in> ?S" "?z \<in> ?S" using lt ord(3) by simp_all
    have ne: "?x \<noteq> ?y" "?y \<noteq> ?z" "?x \<noteq> ?z"
      using nth_distinct_neq [OF dn] ord lt by simp_all
    have ag: "sideTest planeDot eps ?x ?y ?z (?S - {?x, ?y, ?z})"
      using f isFaceWith_set [OF e dn lt ord(3)] by simp
    have s1: "{?y, ?z, ?x} = {?x, ?y, ?z}" by blast
    have s2: "{?x, ?z, ?y} = {?x, ?y, ?z}" by blast
    have "sideTest planeDot eps ?y ?z ?x (?S - {?x, ?y, ?z}) = sideTest planeDot eps ?x ?y ?z (?S - {?x, ?y, ?z})"
      by (rule sideTest_perm [OF H mem ne s1 ne(2) ne(3) [symmetric] ne(1) [symmetric]])
    then have ag1: "sideTest planeDot eps ?y ?z ?x (?S - {?y, ?z, ?x})"
      unfolding s1 using ag by simp
    have "sideTest planeDot eps ?x ?z ?y (?S - {?x, ?y, ?z}) = sideTest planeDot eps ?x ?y ?z (?S - {?x, ?y, ?z})"
      by (rule sideTest_perm [OF H mem ne s2 ne(3) ne(2) [symmetric] ne(1)])
    then have ag2: "sideTest planeDot eps ?x ?z ?y (?S - {?x, ?z, ?y})"
      unfolding s2 using ag by simp
    from pc show "c \<in> testedEdgeSet planeDot eps style ?S"
    proof (elim disjE)
      assume "p = (i, j)"
      then have "c = canonEdge (nodeEdge style ?x ?y)"
        using p(2) ord by (simp add: hullItem_nodeEdge min_def max_def)
      then show ?thesis
        using testedEdgeSetI [OF mem(1) mem(2) mem(3) ne(1) ne(2) ne(3) ag] by simp
    next
      assume "p = (j, k)"
      then have "c = canonEdge (nodeEdge style ?y ?z)"
        using p(2) ord by (simp add: hullItem_nodeEdge min_def max_def)
      then show ?thesis
        using testedEdgeSetI [OF mem(2) mem(3) mem(1) ne(2) ne(3) [symmetric] ne(1) [symmetric] ag1]
        by simp
    next
      assume "p = (k, i)"
      then have "c = canonEdge (nodeEdge style ?x ?z)"
        using p(2) ord by (simp add: hullItem_nodeEdge min_def max_def)
      then show ?thesis
        using testedEdgeSetI [OF mem(1) mem(3) mem(2) ne(3) ne(2) [symmetric] ne(1) ag2] by simp
    qed
  next
    fix c assume "c \<in> testedEdgeSet planeDot eps style (set nodes)"
    then obtain x y z where c: "c = canonEdge (nodeEdge style x y)"
      and mem: "x \<in> set nodes" "y \<in> set nodes" "z \<in> set nodes"
      and ne: "x \<noteq> y" "y \<noteq> z" "x \<noteq> z"
      and ag: "sideTest planeDot eps x y z (set nodes - {x, y, z})"
      unfolding testedEdgeSet_def by blast
    obtain a where ia: "a < length nodes" "nodes ! a = x"
      using mem(1) by (auto simp add: in_set_conv_nth)
    obtain b where ib: "b < length nodes" "nodes ! b = y"
      using mem(2) by (auto simp add: in_set_conv_nth)
    obtain e' where ie: "e' < length nodes" "nodes ! e' = z"
      using mem(3) by (auto simp add: in_set_conv_nth)
    note idx = ia ib ie
    have abe: "a \<noteq> b" "b \<noteq> e'" "a \<noteq> e'" using idx ne by blast+
    obtain i j k where ijk: "i < j" "j < k" "{i, j, k} = {a, b, e'}"
      using sorted3 [OF abe] by (elim exE conjE)
    have "i \<in> {a, b, e'}" "j \<in> {a, b, e'}" "k \<in> {a, b, e'}" using ijk(3) by blast+
    then have lt: "i < length nodes" "j < length nodes" "k < length nodes" using idx by blast+
    have "(!) nodes ` {i, j, k} = (!) nodes ` {a, b, e'}" by (simp only: ijk(3))
    then have sets: "{nodes ! i, nodes ! j, nodes ! k} = {x, y, z}"
      by (simp only: image_insert image_empty idx)
    have ne': "nodes ! i \<noteq> nodes ! j" "nodes ! j \<noteq> nodes ! k" "nodes ! i \<noteq> nodes ! k"
      using nth_distinct_neq [OF dn] ijk(1,2) lt by simp_all
    have "sideTest planeDot eps (nodes ! i) (nodes ! j) (nodes ! k) (set nodes - {x, y, z}) =
        sideTest planeDot eps x y z (set nodes - {x, y, z})"
      by (rule sideTest_perm [OF H mem ne sets ne'])
    then have f: "isFaceWith planeDot eps nodes i j k" using ag isFaceWith_set [OF e dn lt] sets by simp
    have t: "(i, j, k) \<in> set (triples (length nodes))" using ijk(1,2) lt by (simp add: set_triples)
    have ps: "(i, j) \<in> set ?ps" "(j, k) \<in> set ?ps" "(k, i) \<in> set ?ps"
      unfolding set_pairsOf using t f by blast+
    have "a \<in> {i, j, k}" "b \<in> {i, j, k}" using ijk(3) by blast+
    from pair_of_sorted [OF this abe(1) ijk(1,2)]
    have "\<exists>p\<in>set ?ps. min (fst p) (snd p) = min a b \<and> max (fst p) (snd p) = max a b"
    proof (elim disjE conjE)
      assume "min a b = i" "max a b = j"
      then show ?thesis using ps(1) ijk(1) by (intro bexI [of _ "(i, j)"]) (simp_all add: min_def max_def)
    next
      assume "min a b = j" "max a b = k"
      then show ?thesis using ps(2) ijk(2) by (intro bexI [of _ "(j, k)"]) (simp_all add: min_def max_def)
    next
      assume "min a b = i" "max a b = k"
      then show ?thesis using ps(3) ijk(1,2) by (intro bexI [of _ "(k, i)"]) (simp_all add: min_def max_def)
    qed
    then obtain p where p: "p \<in> set ?ps" "min (fst p) (snd p) = min a b" "max (fst p) (snd p) = max a b"
      by blast
    have item: "hullItem nodes style p = nodeEdge style (nodes ! min a b) (nodes ! max a b)"
      by (simp only: hullItem_nodeEdge p(2,3))
    have "canonEdge (nodeEdge style (nodes ! min a b) (nodes ! max a b)) = canonEdge (nodeEdge style x y)"
    proof (cases "a < b")
      case True
      then show ?thesis using idx by (simp add: min_def max_def)
    next
      case False
      then have "min a b = b" "max a b = a" using abe(1) by (simp_all add: min_def max_def)
      then show ?thesis using idx canonEdge_swap [of style y x] by simp
    qed
    then have "c = canonEdge (hullItem nodes style p)" using c item by simp
    then show "c \<in> canonEdge ` set (edges (computeConvexHullWith planeDot eps nodes style))"
      unfolding es using p(1) by blast
  qed
qed

lemma keysUnambiguous_cong:
  assumes "set ids' = set ids"
  shows "keysUnambiguous ids' = keysUnambiguous ids"
  by (simp add: keysUnambiguous_def assms)

lemma hull_permutation_tested:
  assumes p: "mset nodes' = mset nodes" and d: "distinct (map node_id nodes)"
    and e: "0 \<le> eps" and H: "orderIndependent planeDot eps (set nodes)"
  shows "canonFace ` set (faces (computeConvexHullWith planeDot eps nodes' style)) =
           canonFace ` set (faces (computeConvexHullWith planeDot eps nodes style))"
    and "keysUnambiguous (map node_id nodes) \<Longrightarrow>
         canonEdge ` set (edges (computeConvexHullWith planeDot eps nodes' style)) =
           canonEdge ` set (edges (computeConvexHullWith planeDot eps nodes style))"
proof -
  have len: "length nodes' = length nodes" using p by (rule mset_eq_length)
  have st: "set nodes' = set nodes" using p by (rule mset_eq_setD)
  have H': "orderIndependent planeDot eps (set nodes')" using H st by simp
  have "mset (map node_id nodes') = mset (map node_id nodes)" using p by simp
  then have d': "distinct (map node_id nodes')" using d mset_eq_imp_distinct_iff by blast
  have dn: "distinct nodes" "distinct nodes'" using d d' by (simp_all add: distinct_map)
  show "canonFace ` set (faces (computeConvexHullWith planeDot eps nodes' style)) =
           canonFace ` set (faces (computeConvexHullWith planeDot eps nodes style))"
  proof (cases "length nodes < 4")
    case True
    then show ?thesis using len by (simp add: faces_computeConvexHullWith)
  next
    case False
    then have n: "4 \<le> length nodes" "4 \<le> length nodes'" using len by simp_all
    show ?thesis
      unfolding hull_faces_tested [OF e H dn(1) n(1)] hull_faces_tested [OF e H' dn(2) n(2)] st ..
  qed
  assume u: "keysUnambiguous (map node_id nodes)"
  have "set (map node_id nodes') = set (map node_id nodes)" using st by simp
  then have u': "keysUnambiguous (map node_id nodes')" using u keysUnambiguous_cong by blast
  show "canonEdge ` set (edges (computeConvexHullWith planeDot eps nodes' style)) =
           canonEdge ` set (edges (computeConvexHullWith planeDot eps nodes style))"
  proof (cases "length nodes < 4")
    case True
    then show ?thesis using len by (simp add: edges_computeConvexHullWith)
  next
    case False
    then have n: "4 \<le> length nodes" "4 \<le> length nodes'" using len by simp_all
    show ?thesis
      unfolding hull_edges_tested [OF e H d u n(1)] hull_edges_tested [OF e H' d' u' n(2)] st ..
  qed
qed

section \<open>Four nodes\<close>

lemma sidesAgree_singleton: "sidesAgree x y z {a}"
  by (simp add: sidesAgree_def)

lemma triples4: "triples 4 = [(0, 1, 2), (0, 1, 3), (0, 2, 3), (1, 2, 3)]"
proof -
  have "triples (Suc (Suc (Suc (Suc 0)))) = [(0, 1, 2), (0, 1, 3), (0, 2, 3), (1, 2, 3)]"
    by (simp add: triples_def upt_rec)
  then show ?thesis by (simp add: eval_nat_numeral)
qed

lemma isFace_four:
  assumes n: "length nodes = 4" and t: "(i, j, k) \<in> set (triples 4)"
  shows "isFace nodes i j k"
proof -
  have c: "(i = 0 \<and> j = 1 \<and> k = 2) \<or> (i = 0 \<and> j = 1 \<and> k = 3)
      \<or> (i = 0 \<and> j = 2 \<and> k = 3) \<or> (i = 1 \<and> j = 2 \<and> k = 3)"
    using t unfolding triples4 by simp
  have s: "{0..<4} - {0, 1, 2} = {3::nat}" "{0..<4} - {0, 1, 3} = {2::nat}"
    "{0..<4} - {0, 2, 3} = {1::nat}" "{0..<4} - {1, 2, 3} = {0::nat}"
    by auto
  from c show ?thesis
  proof (elim disjE conjE)
    assume "i = 0" "j = 1" "k = 2"
    then show ?thesis unfolding isFace_sidesAgree n by (simp only: s image_insert image_empty sidesAgree_singleton)
  next
    assume "i = 0" "j = 1" "k = 3"
    then show ?thesis unfolding isFace_sidesAgree n by (simp only: s image_insert image_empty sidesAgree_singleton)
  next
    assume "i = 0" "j = 2" "k = 3"
    then show ?thesis unfolding isFace_sidesAgree n by (simp only: s image_insert image_empty sidesAgree_singleton)
  next
    assume "i = 1" "j = 2" "k = 3"
    then show ?thesis unfolding isFace_sidesAgree n by (simp only: s image_insert image_empty sidesAgree_singleton)
  qed
qed

lemma hull_four:
  assumes n: "length nodes = 4"
  shows "faces (computeConvexHull nodes style) =
           [hullFace nodes style 0 1 2, hullFace nodes style 0 1 3,
            hullFace nodes style 0 2 3, hullFace nodes style 1 2 3]"
    and "edges (computeConvexHull nodes style) =
           snd (fold (\<lambda>p. pushUnique (hullKey nodes p) (hullItem nodes style p))
                  [(0, 1), (1, 2), (2, 0), (0, 1), (1, 3), (3, 0),
                   (0, 2), (2, 3), (3, 0), (1, 2), (2, 3), (3, 1)] ({}, []))"
proof -
  have all: "filter (\<lambda>(i, j, k). isFace nodes i j k) (triples 4) = triples 4"
    using isFace_four [OF n] by (intro filter_True) auto
  show "faces (computeConvexHull nodes style) =
           [hullFace nodes style 0 1 2, hullFace nodes style 0 1 3,
            hullFace nodes style 0 2 3, hullFace nodes style 1 2 3]"
    unfolding faces_computeConvexHull facePart_def n all by (simp add: triples4)
  show "edges (computeConvexHull nodes style) =
           snd (fold (\<lambda>p. pushUnique (hullKey nodes p) (hullItem nodes style p))
                  [(0, 1), (1, 2), (2, 0), (0, 1), (1, 3), (3, 0),
                   (0, 2), (2, 3), (3, 0), (1, 2), (2, 3), (3, 1)] ({}, []))"
    unfolding edges_computeConvexHull pairPart_def n all by (simp add: triples4)
qed

lemmas ids_eval = pushUnique_def hullKey_def hullItem_def hullEdge_def hullFace_def mkNode_def Let_def

lemma hull_hyphen_ids:
  "map (\<lambda>e. (nodeAId e, nodeBId e)) (edges (computeConvexHull hyphenNodes CurveIn)) =
     [(''a'', ''b-c''), (''b-c'', ''a-b''), (''a'', ''a-b''), (''b-c'', ''c''), (''a'', ''c'')]
   \<and> map nodeIds (faces (computeConvexHull hyphenNodes CurveIn)) =
     [(''a'', ''b-c'', ''a-b''), (''a'', ''b-c'', ''c''), (''a'', ''a-b'', ''c''), (''b-c'', ''a-b'', ''c'')]"
proof -
  have n: "length hyphenNodes = 4" by (simp add: hyphenNodes_def)
  show ?thesis unfolding hull_four [OF n] by (simp add: hyphenNodes_def ids_eval)
qed

lemma hull_reordered_ids:
  "map (\<lambda>e. (nodeAId e, nodeBId e)) (edges (computeConvexHull hyphenNodesReordered CurveIn)) =
     [(''b-c'', ''a''), (''a'', ''c''), (''b-c'', ''c''), (''a'', ''a-b''),
      (''b-c'', ''a-b''), (''c'', ''a-b'')]"
proof -
  have n: "length hyphenNodesReordered = 4" by (simp add: hyphenNodesReordered_def)
  show ?thesis unfolding hull_four [OF n] by (simp add: hyphenNodesReordered_def ids_eval)
qed

lemmas knn_eval = computeNearestNeighborGraph_def effectiveNeighbors_def neighborsOf_def
  addAdjacent_def linkNeighbor_def closeFace_def pushUnique_def distanceTo_def
  getEdgeControlPoint_def multiplyScalar_def addVectors_def Let_def mkNode_def upt_rec

lemma knn_hyphen_ids:
  "\<exists>g. computeNearestNeighborGraph hyphenNodes sampleSettings = Some g
     \<and> map (\<lambda>e. (nodeAId e, nodeBId e)) (edges g) =
        [(''a'', ''b-c''), (''a'', ''a-b''), (''a'', ''c''), (''a-b'', ''b-c''), (''b-c'', ''c'')]
     \<and> map nodeIds (faces g) =
        [(''a'', ''a-b'', ''b-c''), (''a'', ''b-c'', ''c''), (''a'', ''a-b'', ''c''), (''a-b'', ''b-c'', ''c'')]"
  by (simp add: hyphenNodes_def sampleSettings_def knn_eval)

lemma not_all_closed:
  assumes "map (\<lambda>e. (nodeAId e, nodeBId e)) es = ids" "map nodeIds fs = tr"
    "(a, b, c) \<in> set tr" "(b, c) \<notin> set ids" "(c, b) \<notin> set ids"
  shows "\<not> (\<forall>f\<in>set fs. faceClosed es f)"
proof
  assume all: "\<forall>f\<in>set fs. faceClosed es f"
  have "(a, b, c) \<in> nodeIds ` set fs" using assms(2,3) by (metis set_map)
  then obtain f where f: "f \<in> set fs" "(a, b, c) = nodeIds f" by (rule imageE)
  have "(b, c) \<in> set (facePairs f)" by (simp add: facePairs_def f(2) [symmetric])
  then obtain e where e: "e \<in> set es" "joins e b c"
    using all f(1) unfolding faceClosed_def by fastforce
  have "(nodeAId e, nodeBId e) \<in> set ids" using e(1) assms(1) by (metis imageI set_map)
  then show False using e(2) assms(4,5) unfolding joins_def by metis
qed

lemma hull_hyphen_not_closed:
  "\<not> (\<forall>f\<in>set (faces (computeConvexHull hyphenNodes CurveIn)).
         faceClosed (edges (computeConvexHull hyphenNodes CurveIn)) f)"
  by (rule not_all_closed [OF conjunct1 [OF hull_hyphen_ids] conjunct2 [OF hull_hyphen_ids],
        of "''a''" "''a-b''" "''c''"]) simp_all

lemma knn_hyphen_not_closed:
  "\<exists>g. computeNearestNeighborGraph hyphenNodes sampleSettings = Some g
       \<and> \<not> (\<forall>f\<in>set (faces g). faceClosed (edges g) f)
       \<and> filter (\<lambda>e. joins e ''a-b'' ''c'') (edges g) = []"
proof -
  obtain g where g: "computeNearestNeighborGraph hyphenNodes sampleSettings = Some g"
    "map (\<lambda>e. (nodeAId e, nodeBId e)) (edges g) =
        [(''a'', ''b-c''), (''a'', ''a-b''), (''a'', ''c''), (''a-b'', ''b-c''), (''b-c'', ''c'')]"
    "map nodeIds (faces g) =
        [(''a'', ''a-b'', ''b-c''), (''a'', ''b-c'', ''c''), (''a'', ''a-b'', ''c''), (''a-b'', ''b-c'', ''c'')]"
    using knn_hyphen_ids by (elim exE conjE)
  have a: "\<not> (\<forall>f\<in>set (faces g). faceClosed (edges g) f)"
    by (rule not_all_closed [OF g(2) g(3), of "''a''" "''a-b''" "''c''"]) simp_all
  have "\<forall>e\<in>set (edges g). \<not> joins e ''a-b'' ''c''"
  proof
    fix e assume "e \<in> set (edges g)"
    then have "(nodeAId e, nodeBId e) \<in> set (map (\<lambda>e. (nodeAId e, nodeBId e)) (edges g))" by simp
    then show "\<not> joins e ''a-b'' ''c''" unfolding g(2) joins_def by auto
  qed
  then have "filter (\<lambda>e. joins e ''a-b'' ''c'') (edges g) = []" by (simp add: filter_empty_conv)
  with g(1) a show ?thesis by blast
qed

lemma tetra_ids:
  "distinct (map node_id tetraNodes)" "keysUnambiguous (map node_id tetraNodes)"
  "length tetraNodes = 4"
proof -
  show "distinct (map node_id tetraNodes)" by (simp add: tetraNodes_def mkNode_def)
  show "keysUnambiguous (map node_id tetraNodes)"
    by (rule hyphen_free_unambiguous) (simp add: tetraNodes_def mkNode_def)
  show "length tetraNodes = 4" by (simp add: tetraNodes_def)
qed

lemma hyphen_ids:
  "distinct (map node_id hyphenNodes)" "distinct (map pos hyphenNodes)"
  "length hyphenNodes = 4" "mset hyphenNodesReordered = mset hyphenNodes"
proof -
  show "distinct (map node_id hyphenNodes)" by (simp add: hyphenNodes_def mkNode_def)
  show "distinct (map pos hyphenNodes)" by (simp add: hyphenNodes_def mkNode_def)
  show "length hyphenNodes = 4" by (simp add: hyphenNodes_def)
  show "mset hyphenNodesReordered = mset hyphenNodes"
    by (simp add: hyphenNodes_def hyphenNodesReordered_def)
qed

lemma collinear_degenerate:
  "vlength (crossVectors (subVectors (pos (collinearNodes ! 1)) (pos (collinearNodes ! 0)))
                         (subVectors (pos (collinearNodes ! 2)) (pos (collinearNodes ! 0)))) = 0"
  "length collinearNodes = 4"
  "hullFace collinearNodes CurveIn 0 1 2 =
     nodeFace CurveIn (mkNode ''1'' (Vector3 0 0 0)) (mkNode ''2'' (Vector3 1 0 0)) (mkNode ''3'' (Vector3 2 0 0))"
  by (simp_all add: collinearNodes_def mkNode_def vlength_def crossVectors_def subVectors_def
       hullFace_nodeFace)

lemma hull_settings:
  "connectionMode hullSettings = Auto" "connectionStyle hullSettings = CurveIn"
  "connectionMode sampleSettings = Fixed" "connectionStyle sampleSettings = CurveIn"
  "connectionNeighbors sampleSettings = 3"
  by (simp_all add: hullSettings_def sampleSettings_def)

lemma pair_sets_differ:
  "(\<lambda>e. {nodeAId e, nodeBId e}) ` set (edges (computeConvexHull hyphenNodesReordered CurveIn))
     \<noteq> (\<lambda>e. {nodeAId e, nodeBId e}) ` set (edges (computeConvexHull hyphenNodes CurveIn))"
proof -
  have im: "(\<lambda>e. {nodeAId e, nodeBId e}) ` set es =
      (\<lambda>p. {fst p, snd p}) ` set (map (\<lambda>e. (nodeAId e, nodeBId e)) es)" for es :: "EdgeData list"
    by (simp add: image_image)
  have "{''c'', ''a-b''} \<in> (\<lambda>e. {nodeAId e, nodeBId e}) ` set (edges (computeConvexHull hyphenNodesReordered CurveIn))"
    unfolding im hull_reordered_ids by simp
  moreover have "{''c'', ''a-b''} \<notin> (\<lambda>e. {nodeAId e, nodeBId e}) ` set (edges (computeConvexHull hyphenNodes CurveIn))"
    unfolding im conjunct1 [OF hull_hyphen_ids] by (simp add: doubleton_eq_iff)
  ultimately show ?thesis by metis
qed

section \<open>Five nodes\<close>

lemmas plane_eval = isFaceWith_def exactPlaneDot_def subVectors_def crossVectors_def normalizeV_def
  multiplyScalar_def vlength_def dot_def Let_def mkNode_def upt_rec

lemma pyramid_ids:
  "distinct (map node_id pyramidNodes)" "keysUnambiguous (map node_id pyramidNodes)"
  "mset pyramidNodesReordered = mset pyramidNodes"
proof -
  show "distinct (map node_id pyramidNodes)" by (simp add: pyramidNodes_def mkNode_def)
  show "keysUnambiguous (map node_id pyramidNodes)"
    by (rule hyphen_free_unambiguous) (simp add: pyramidNodes_def mkNode_def)
  show "mset pyramidNodesReordered = mset pyramidNodes"
    by (simp add: pyramidNodes_def pyramidNodesReordered_def)
qed

lemma pyramid_base_face: "isFaceWith exactPlaneDot (1 / 10000) pyramidNodes 0 1 2"
  by (simp add: pyramidNodes_def plane_eval)

lemma pyramid_diagonal: "\<not> isFaceWith exactPlaneDot (1 / 10000) pyramidNodes 0 2 4"
  by (simp add: pyramidNodes_def plane_eval)

lemma pyramid_diagonal_reordered: "\<not> isFaceWith exactPlaneDot (1 / 10000) pyramidNodesReordered 0 1 2"
  by (simp add: pyramidNodesReordered_def plane_eval)

section \<open>Hull mode: degenerate triples are faces\<close>

text \<open>
  Claim C2, as the code has it. Hull mode never fails, and it has no guard against a
  zero cross product: for a triple whose two edge vectors have a cross product of length
  zero, the normal is the zero vector, no node counts as lying on either side, and with
  at least four nodes the triple is returned as a face.
\<close>

theorem degenerate_triple_is_a_face:
  assumes "connectionMode settings = Auto" "connectionStyle settings \<noteq> StyleNone"
    and "4 \<le> length nodes" "i < j" "j < k" "k < length nodes"
    and "vlength (crossVectors (subVectors (pos (nodes ! j)) (pos (nodes ! i)))
                               (subVectors (pos (nodes ! k)) (pos (nodes ! i)))) = 0"
  shows "hullNormal nodes i j k = Vector3 0 0 0
       \<and> (\<exists>g. useGraphData nodes settings = Some g
              \<and> hullFace nodes (connectionStyle settings) i j k \<in> set (faces g))"
  using assms degenerate_isFace(1) [OF assms(7)]
    degenerate_face_emitted [OF assms(3,4,5,6,7), of "connectionStyle settings"]
  by (simp add: useGraphData_def)

theorem degenerate_triple_is_a_face_witness:
  "hullNormal collinearNodes 0 1 2 = Vector3 0 0 0
   \<and> (\<exists>g. useGraphData collinearNodes hullSettings = Some g
          \<and> hullFace collinearNodes CurveIn 0 1 2 \<in> set (faces g))"
proof -
  have h: "connectionMode hullSettings = Auto" "connectionStyle hullSettings \<noteq> StyleNone"
    "4 \<le> length collinearNodes" "(0::nat) < 1" "(1::nat) < 2" "2 < length collinearNodes"
    by (simp_all add: hull_settings collinear_degenerate)
  show ?thesis
    using degenerate_triple_is_a_face [OF h collinear_degenerate(1)] by (simp add: hull_settings)
qed

text \<open>
  The claim as stated fails: of four nodes the first three of which lie on a line, the
  collinear triple is among the faces returned.
\<close>

theorem degenerate_triple_counterexample:
  "vlength (crossVectors (subVectors (pos (collinearNodes ! 1)) (pos (collinearNodes ! 0)))
                         (subVectors (pos (collinearNodes ! 2)) (pos (collinearNodes ! 0)))) = 0
   \<and> (\<exists>g. useGraphData collinearNodes hullSettings = Some g
          \<and> (''1'', ''2'', ''3'') \<in> nodeIds ` set (faces g))"
proof -
  have h: "4 \<le> length collinearNodes" "(0::nat) < 1" "(1::nat) < 2" "2 < length collinearNodes"
    by (simp_all add: collinear_degenerate)
  have "hullFace collinearNodes CurveIn 0 1 2 \<in> set (faces (computeConvexHull collinearNodes CurveIn))"
    by (rule degenerate_face_emitted [OF h collinear_degenerate(1)])
  moreover have "nodeIds (hullFace collinearNodes CurveIn 0 1 2) = (''1'', ''2'', ''3'')"
    by (simp add: hullFace_def collinearNodes_def mkNode_def Let_def)
  ultimately have "(''1'', ''2'', ''3'') \<in> nodeIds ` set (faces (computeConvexHull collinearNodes CurveIn))"
    by (metis imageI)
  then show ?thesis
    using collinear_degenerate(1) by (simp add: useGraphData_def hull_settings)
qed

section \<open>Both modes: every face has its edges\<close>

text \<open>
  Claim C3, as the code has it. For every node list whose identifiers are unambiguous
  for the edge keys (for instance, without hyphens) and in both connection modes, the
  graph builder returns a graph, and each of the three pairs of identifiers of every face
  returned is joined by an edge returned by the same call.
\<close>

theorem faces_closed_under_edges:
  assumes "keysUnambiguous (map node_id nodes)"
  shows "\<exists>g. useGraphData nodes settings = Some g
           \<and> (\<forall>f\<in>set (faces g). \<forall>p\<in>set (facePairs f). \<exists>e\<in>set (edges g). joins e (fst p) (snd p))"
  using useGraphData_faces_closed [OF assms, of settings] unfolding faceClosed_def .

theorem faces_closed_under_edges_witness:
  "keysUnambiguous (map node_id tetraNodes)
   \<and> (\<exists>g. useGraphData tetraNodes hullSettings = Some g
          \<and> (\<forall>f\<in>set (faces g). \<forall>p\<in>set (facePairs f). \<exists>e\<in>set (edges g). joins e (fst p) (snd p)))
   \<and> (\<exists>g. useGraphData tetraNodes sampleSettings = Some g
          \<and> (\<forall>f\<in>set (faces g). \<forall>p\<in>set (facePairs f). \<exists>e\<in>set (edges g). joins e (fst p) (snd p)))"
  using faces_closed_under_edges [OF tetra_ids(2), of hullSettings]
    faces_closed_under_edges [OF tetra_ids(2), of sampleSettings] tetra_ids(2)
  by (intro conjI)

text \<open>
  The claim as stated fails: for four nodes named \<open>a\<close>, \<open>b-c\<close>, \<open>a-b\<close> and \<open>c\<close> the pairs
  \<open>(a, b-c)\<close> and \<open>(a-b, c)\<close> have the same key, the second edge is dropped, and in
  both modes a face with the corners \<open>a-b\<close> and \<open>c\<close> is returned without it.
\<close>

theorem faces_closed_counterexample:
  "(\<exists>g. useGraphData hyphenNodes hullSettings = Some g
       \<and> \<not> (\<forall>f\<in>set (faces g). \<forall>p\<in>set (facePairs f). \<exists>e\<in>set (edges g). joins e (fst p) (snd p)))
   \<and> (\<exists>g. useGraphData hyphenNodes sampleSettings = Some g
       \<and> \<not> (\<forall>f\<in>set (faces g). \<forall>p\<in>set (facePairs f). \<exists>e\<in>set (edges g). joins e (fst p) (snd p)))"
proof -
  have a: "useGraphData hyphenNodes hullSettings = Some (computeConvexHull hyphenNodes CurveIn)"
    by (simp add: useGraphData_def hull_settings)
  have b: "useGraphData hyphenNodes sampleSettings = computeNearestNeighborGraph hyphenNodes sampleSettings"
    by (simp add: useGraphData_def hull_settings)
  show ?thesis
    unfolding a b using hull_hyphen_not_closed knn_hyphen_not_closed
    unfolding faceClosed_def by blast
qed

section \<open>Nearest-neighbour mode: the complete graph\<close>

text \<open>
  Claim C5, as the code has it. With at least two nodes the neighbour count used lies
  between 1 and \<open>N - 1\<close>. For every list of at least two nodes with distinct
  identifiers that are unambiguous for the edge keys and every requested count of at
  least \<open>N - 1\<close>, the count used is \<open>N - 1\<close>, a graph is returned, every two
  different nodes are joined by exactly one edge of it, and every edge joins two
  different nodes. The positions play no role.
\<close>

theorem knn_complete_graph:
  assumes "2 \<le> length nodes" "distinct (map node_id nodes)"
    and "keysUnambiguous (map node_id nodes)"
    and "int (length nodes) - 1 \<le> connectionNeighbors settings"
  shows "1 \<le> effectiveNeighbors nodes k \<and> effectiveNeighbors nodes k \<le> int (length nodes) - 1
       \<and> effectiveNeighbors nodes (connectionNeighbors settings) = int (length nodes) - 1
       \<and> (\<exists>g. computeNearestNeighborGraph nodes settings = Some g
            \<and> (\<forall>i<length nodes. \<forall>j<length nodes. i \<noteq> j \<longrightarrow>
                 length (filter (\<lambda>e. joins e (node_id (nodes ! i)) (node_id (nodes ! j))) (edges g)) = 1)
            \<and> (\<forall>e\<in>set (edges g). \<exists>i<length nodes. \<exists>j<length nodes. i \<noteq> j \<and>
                 joins e (node_id (nodes ! i)) (node_id (nodes ! j))))"
proof -
  obtain g where g: "computeNearestNeighborGraph nodes settings = Some g"
    "edges g = knnEdges nodes settings"
    using knn_faces_closed [OF assms(3), of settings] by (elim exE conjE)
  show ?thesis
    using effectiveNeighbors_clamped [OF assms(1), of k] effectiveNeighbors_all [OF assms(1,4)]
      knn_complete [OF assms] g
    by simp
qed

theorem knn_complete_graph_witness:
  "2 \<le> length tetraNodes \<and> distinct (map node_id tetraNodes)
   \<and> keysUnambiguous (map node_id tetraNodes)
   \<and> int (length tetraNodes) - 1 \<le> connectionNeighbors sampleSettings
   \<and> effectiveNeighbors tetraNodes (connectionNeighbors sampleSettings) = 3
   \<and> (\<exists>g. computeNearestNeighborGraph tetraNodes sampleSettings = Some g
        \<and> (\<forall>i<length tetraNodes. \<forall>j<length tetraNodes. i \<noteq> j \<longrightarrow>
             length (filter (\<lambda>e. joins e (node_id (tetraNodes ! i)) (node_id (tetraNodes ! j))) (edges g)) = 1))"
proof -
  have h: "2 \<le> length tetraNodes" "distinct (map node_id tetraNodes)"
    "keysUnambiguous (map node_id tetraNodes)"
    "int (length tetraNodes) - 1 \<le> connectionNeighbors sampleSettings"
    by (simp_all add: tetra_ids hull_settings)
  have e: "effectiveNeighbors tetraNodes (connectionNeighbors sampleSettings) = 3"
    using knn_complete_graph [OF h, of 0] by (simp add: tetra_ids)
  have "\<exists>g. computeNearestNeighborGraph tetraNodes sampleSettings = Some g
        \<and> (\<forall>i<length tetraNodes. \<forall>j<length tetraNodes. i \<noteq> j \<longrightarrow>
             length (filter (\<lambda>e. joins e (node_id (tetraNodes ! i)) (node_id (tetraNodes ! j))) (edges g)) = 1)"
    using knn_complete_graph [OF h, of 0] by blast
  then show ?thesis using h e by (intro conjI)
qed

text \<open>
  The claim as stated fails: the four nodes named \<open>a\<close>, \<open>b-c\<close>, \<open>a-b\<close> and \<open>c\<close>, at four
  different positions and with three neighbours requested, get no edge between \<open>a-b\<close>
  and \<open>c\<close>.
\<close>

theorem knn_complete_graph_counterexample:
  "2 \<le> length hyphenNodes \<and> distinct (map pos hyphenNodes) \<and> distinct (map node_id hyphenNodes)
   \<and> int (length hyphenNodes) - 1 \<le> connectionNeighbors sampleSettings
   \<and> (\<exists>g. computeNearestNeighborGraph hyphenNodes sampleSettings = Some g
        \<and> filter (\<lambda>e. joins e ''a-b'' ''c'') (edges g) = [])"
proof -
  have "\<exists>g. computeNearestNeighborGraph hyphenNodes sampleSettings = Some g
        \<and> filter (\<lambda>e. joins e ''a-b'' ''c'') (edges g) = []"
    using knn_hyphen_not_closed by blast
  moreover have "2 \<le> length hyphenNodes" "int (length hyphenNodes) - 1 \<le> connectionNeighbors sampleSettings"
    by (simp_all add: hyphen_ids hull_settings)
  ultimately show ?thesis using hyphen_ids(1,2) by (intro conjI)
qed

section \<open>Hull mode: reordering the nodes\<close>

text \<open>
  Claim C9, as the code has it. Let the identifiers of a node list be distinct, and let
  the side test, as the code computes it, be order independent on the nodes of the list.
  Then for every permutation of the list hull mode returns the same faces up to the
  order of their corners and, when the identifiers are also unambiguous for the edge
  keys, the same edges up to their direction. The order of emission, the order of the
  identifiers within a face or an edge, and the colour of an edge are not compared. The
  computation over the reals is order independent on every set of nodes; the computation
  in double precision need not be, since the rounded number of a node close to the plane
  of a triple can exceed the threshold in one order of the triple and not in another.
\<close>

theorem hull_reordering:
  assumes "mset nodes' = mset nodes" "distinct (map node_id nodes)"
    and "0 \<le> eps" "orderIndependent planeDot eps (set nodes)"
  shows "canonFace ` set (faces (computeConvexHullWith planeDot eps nodes' style)) =
           canonFace ` set (faces (computeConvexHullWith planeDot eps nodes style))
       \<and> (keysUnambiguous (map node_id nodes) \<longrightarrow>
            canonEdge ` set (edges (computeConvexHullWith planeDot eps nodes' style)) =
              canonEdge ` set (edges (computeConvexHullWith planeDot eps nodes style)))"
  using hull_permutation_tested [OF assms, of style] by blast

text \<open>
  The instance: the five nodes of the pyramid in two orders, with the computation over
  the reals. The side test decides here: it accepts three corners of the square and
  rejects two opposite corners with the apex, in either order of the list.
\<close>

theorem hull_reordering_witness:
  "mset pyramidNodesReordered = mset pyramidNodes \<and> distinct (map node_id pyramidNodes)
   \<and> keysUnambiguous (map node_id pyramidNodes)
   \<and> orderIndependent exactPlaneDot (1 / 10000) (set pyramidNodes)
   \<and> isFaceWith exactPlaneDot (1 / 10000) pyramidNodes 0 1 2
   \<and> \<not> isFaceWith exactPlaneDot (1 / 10000) pyramidNodes 0 2 4
   \<and> \<not> isFaceWith exactPlaneDot (1 / 10000) pyramidNodesReordered 0 1 2
   \<and> canonFace ` set (faces (computeConvexHullWith exactPlaneDot (1 / 10000) pyramidNodesReordered CurveIn)) =
       canonFace ` set (faces (computeConvexHullWith exactPlaneDot (1 / 10000) pyramidNodes CurveIn))
   \<and> canonEdge ` set (edges (computeConvexHullWith exactPlaneDot (1 / 10000) pyramidNodesReordered CurveIn)) =
       canonEdge ` set (edges (computeConvexHullWith exactPlaneDot (1 / 10000) pyramidNodes CurveIn))"
proof -
  have e: "(0::real) \<le> 1 / 10000" by simp
  note r = hull_reordering [OF pyramid_ids(3) pyramid_ids(1) e exact_orderIndependent, of CurveIn]
  show ?thesis
    using r pyramid_ids exact_orderIndependent [of "set pyramidNodes"]
      pyramid_base_face pyramid_diagonal pyramid_diagonal_reordered
    by blast
qed

text \<open>
  The claim as stated fails: the four nodes named \<open>a\<close>, \<open>b-c\<close>, \<open>a-b\<close> and \<open>c\<close> give
  five edges in this order and six in the order \<open>b-c\<close>, \<open>a\<close>, \<open>c\<close>, \<open>a-b\<close>; the pair
  \<open>a-b\<close>, \<open>c\<close> is joined in the second order only. With four nodes every triple
  passes the side test, whatever the computed numbers are.
\<close>

theorem hull_reordering_counterexample:
  "mset hyphenNodesReordered = mset hyphenNodes \<and> distinct (map node_id hyphenNodes)
   \<and> orderIndependent exactPlaneDot (1 / 10000) (set hyphenNodes)
   \<and> (\<lambda>e. {nodeAId e, nodeBId e}) `
         set (edges (computeConvexHullWith exactPlaneDot (1 / 10000) hyphenNodesReordered CurveIn))
       \<noteq> (\<lambda>e. {nodeAId e, nodeBId e}) `
         set (edges (computeConvexHullWith exactPlaneDot (1 / 10000) hyphenNodes CurveIn))"
  using hyphen_ids(1,4) pair_sets_differ exact_orderIndependent [of "set hyphenNodes"]
  unfolding computeConvexHull_exact by (intro conjI)

end
